theory Spec2Isabelle
  imports Complex_Main "HOL-Library.Word"
begin

section \<open>The video decode pipeline of src/core/video\_decode.c\<close>

text \<open>
  The file keeps one playback session in file-level variables, opens a container with
  libavformat, and runs a worker thread that reads packets, decodes them, paces each frame
  and copies it into one shared RGBA buffer. The model below follows the C text function by
  function. What the C standard leaves undefined (a null or out-of-range access, a signed
  overflow, a floating value converted to an integer type that cannot hold it) is a value of
  type \<open>fault\<close>; what libav and libc decide is an input of the model.
\<close>

subsection \<open>Data\<close>

type_synonym byte = "8 word"

datatype fault = NullPointer | OutOfBounds | IntOverflow | FloatToInt

text \<open>The range of a C \<open>int\<close> (32 bits) and of an \<open>int64_t\<close>; \<open>size_t\<close> has 64 bits.\<close>

definition int_ok :: "int \<Rightarrow> bool" where
  "int_ok v = (- 2147483648 \<le> v \<and> v \<le> 2147483647)"

definition int64_ok :: "int \<Rightarrow> bool" where
  "int64_ok v = (- 9223372036854775808 \<le> v \<and> v \<le> 9223372036854775807)"

definition size_t_of_int :: "int \<Rightarrow> nat" where
  "size_t_of_int v = nat (v mod 18446744073709551616)"

record AVRational =
  num :: int
  den :: int

record AVStream =
  time_base :: AVRational

record AVCodecContext =
  width :: int
  height :: int
  pix_fmt :: int

text \<open>
  \<open>streams\<close> is the array \<open>fmt_ctx->streams\<close>; the only index the program uses is the one
  av\_find\_best\_stream returned for this very context.
\<close>

record AVFormatContext =
  streams :: "int \<Rightarrow> AVStream"

text \<open>A frame: the bytes reachable from \<open>data[0]\<close> and the row stride \<open>linesize[0]\<close>.\<close>

record AVFrame =
  data0 :: "byte list"
  linesize0 :: int

record AVPacket =
  stream_index :: int
  dts :: int

text \<open>
  The file-level variables. A pointer is \<open>None\<close> when it is \<open>NULL\<close>, and otherwise holds
  the current contents of the object it points to; \<open>s_decode_buf\<close> is the published
  frame buffer.
\<close>

record session =
  s_fmt_ctx :: "AVFormatContext option"
  s_dec_ctx :: "AVCodecContext option"
  s_video_st :: "AVStream option"
  s_video_stream_index :: int
  s_video_w :: int
  s_video_h :: int
  s_crop_w :: int
  s_crop_h :: int
  s_video_fmt :: "32 word"
  s_duration_base :: int
  s_decode_buf :: "byte list option"

text \<open>The values the variables have when the program starts (static initialisation).\<close>

definition session_init :: session where
  "session_init =
     \<lparr>s_fmt_ctx = None, s_dec_ctx = None, s_video_st = None, s_video_stream_index = - 1,
      s_video_w = 0, s_video_h = 0, s_crop_w = 0, s_crop_h = 0, s_video_fmt = 0,
      s_duration_base = 0, s_decode_buf = None\<rparr>"

text \<open>
  What the headers and the C library fix and the file does not: the allocator (\<open>None\<close> is a
  failed \<open>malloc\<close>, otherwise the fresh block with whatever bytes it holds), the error codes
  \<open>AVERROR(EAGAIN)\<close>, \<open>AVERROR_EOF\<close>, \<open>AVERROR(ENOMEM)\<close> and the constant
  \<open>AV_NOPTS_VALUE\<close>.
\<close>

record env =
  malloc :: "nat \<Rightarrow> byte list option"
  AVERROR_EAGAIN :: int
  AVERROR_EOF :: int
  AVERROR_ENOMEM :: int
  AV_NOPTS_VALUE :: int

subsection \<open>The accessors (lines 110 to 128)\<close>

text \<open>Each returns 0 and stores its answer through the pointer it is given.\<close>

definition get_video_dimension :: "session \<Rightarrow> int \<times> int \<times> int" where
  "get_video_dimension s = (0, s_crop_w s, s_crop_h s)"

definition get_video_pixformat :: "session \<Rightarrow> int \<times> int" where
  "get_video_pixformat s = (0, sint (s_video_fmt s))"

definition get_video_buffer :: "session \<Rightarrow> int \<times> byte list option" where
  "get_video_buffer s = (0, s_decode_buf s)"

subsection \<open>convert\_to\_rgba8888 (lines 161 to 186)\<close>

text \<open>Lines 164 to 166: the buffer is allocated on the first call only.\<close>

definition alloc_decode_buf :: "env \<Rightarrow> int \<Rightarrow> int \<Rightarrow> session \<Rightarrow> fault + session" where
  "alloc_decode_buf E w h s =
     (case s_decode_buf s of
        None \<Rightarrow>
          if int_ok (w * h) \<and> int_ok (w * h * 4)
          then Inr (s\<lparr>s_decode_buf := malloc E (size_t_of_int (w * h * 4))\<rparr>)
          else Inl IntOverflow
      | Some b \<Rightarrow> Inr s)"

text \<open>\<open>memcpy dst src n\<close>: the first \<open>n\<close> bytes of \<open>dst\<close> become the first \<open>n\<close> bytes of \<open>src\<close>.\<close>

definition memcpy :: "byte list option \<Rightarrow> byte list \<Rightarrow> nat \<Rightarrow> fault + byte list" where
  "memcpy dst src n =
     (case dst of
        None \<Rightarrow> Inl NullPointer
      | Some d \<Rightarrow>
          if n \<le> length d \<and> n \<le> length src then Inr (take n src @ drop n d)
          else Inl OutOfBounds)"

text \<open>Line 169, the branch for \<open>ofstx == 0 && ofsty == 0\<close>.\<close>

definition bulk_copy :: "AVFrame \<Rightarrow> int \<Rightarrow> int \<Rightarrow> session \<Rightarrow> fault + session" where
  "bulk_copy frame w h s =
     (if int_ok (w * h) \<and> int_ok (w * h * 4) then
        (case memcpy (s_decode_buf s) (data0 frame) (size_t_of_int (w * h * 4)) of
           Inl f \<Rightarrow> Inl f
         | Inr b \<Rightarrow> Inr (s\<lparr>s_decode_buf := Some b\<rparr>))
      else Inl IntOverflow)"

text \<open>\<open>*dst8++ = *src8++\<close> with both pointers as byte offsets into their blocks.\<close>

definition copy_byte :: "byte list \<Rightarrow> int \<Rightarrow> int \<Rightarrow> byte list \<Rightarrow> fault + byte list" where
  "copy_byte src src8 dst8 buf =
     (if 0 \<le> src8 \<and> src8 < int (length src) \<and> 0 \<le> dst8 \<and> dst8 < int (length buf)
      then Inr (buf[nat dst8 := src ! nat src8])
      else Inl OutOfBounds)"

text \<open>Lines 177 to 182: the loop over \<open>x\<close>, four bytes each time round.\<close>

function pixel_loop :: "byte list \<Rightarrow> int \<Rightarrow> int \<Rightarrow> int \<Rightarrow> int \<Rightarrow> byte list \<Rightarrow> fault + byte list" where
  "pixel_loop src w x src8 dst8 buf =
     (if x < w then
        (case copy_byte src src8 dst8 buf of
           Inl f \<Rightarrow> Inl f
         | Inr b1 \<Rightarrow>
        (case copy_byte src (src8 + 1) (dst8 + 1) b1 of
           Inl f \<Rightarrow> Inl f
         | Inr b2 \<Rightarrow>
        (case copy_byte src (src8 + 2) (dst8 + 2) b2 of
           Inl f \<Rightarrow> Inl f
         | Inr b3 \<Rightarrow>
        (case copy_byte src (src8 + 3) (dst8 + 3) b3 of
           Inl f \<Rightarrow> Inl f
         | Inr b4 \<Rightarrow> pixel_loop src w (x + 1) (src8 + 4) (dst8 + 4) b4))))
      else Inr buf)"
  by pat_completeness auto
termination
  by (relation "measure (\<lambda>(src, w, x, src8, dst8, buf). nat (w - x))") auto

text \<open>Lines 172 to 183: the loop over \<open>y\<close>; the three offsets are \<open>int\<close> expressions.\<close>

function row_loop :: "AVFrame \<Rightarrow> int \<Rightarrow> int \<Rightarrow> int \<Rightarrow> int \<Rightarrow> int \<Rightarrow> byte list \<Rightarrow> fault + byte list" where
  "row_loop frame ofstx ofsty w h y buf =
     (if y < h then
        if int_ok (y * w) \<and> int_ok (y * w * 4) \<and> int_ok (y + ofsty)
           \<and> int_ok ((y + ofsty) * linesize0 frame) \<and> int_ok (ofstx * 4)
        then
          (case pixel_loop (data0 frame) w 0
                  ((y + ofsty) * linesize0 frame + ofstx * 4) (y * w * 4) buf of
             Inl f \<Rightarrow> Inl f
           | Inr b \<Rightarrow> row_loop frame ofstx ofsty w h (y + 1) b)
        else Inl IntOverflow
      else Inr buf)"
  by pat_completeness auto
termination
  by (relation "measure (\<lambda>(frame, ofstx, ofsty, w, h, y, buf). nat (h - y))") auto

text \<open>
  The \<open>else\<close> branch. With a null buffer the first store faults; a loop that stores nothing
  leaves the pointer as it is.
\<close>

definition crop_copy :: "AVFrame \<Rightarrow> int \<Rightarrow> int \<Rightarrow> int \<Rightarrow> int \<Rightarrow> session \<Rightarrow> fault + session" where
  "crop_copy frame ofstx ofsty w h s =
     (case s_decode_buf s of
        None \<Rightarrow>
          (case row_loop frame ofstx ofsty w h 0 [] of
             Inl IntOverflow \<Rightarrow> Inl IntOverflow
           | Inl f \<Rightarrow> Inl NullPointer
           | Inr b \<Rightarrow> Inr s)
      | Some buf \<Rightarrow>
          (case row_loop frame ofstx ofsty w h 0 buf of
             Inl f \<Rightarrow> Inl f
           | Inr b \<Rightarrow> Inr (s\<lparr>s_decode_buf := Some b\<rparr>)))"

text \<open>The function; its result is always 0 and no caller reads it.\<close>

definition convert_to_rgba8888 ::
  "env \<Rightarrow> AVFrame \<Rightarrow> int \<Rightarrow> int \<Rightarrow> int \<Rightarrow> int \<Rightarrow> session \<Rightarrow> fault + session" where
  "convert_to_rgba8888 E frame ofstx ofsty w h s =
     (case alloc_decode_buf E w h s of
        Inl f \<Rightarrow> Inl f
      | Inr s1 \<Rightarrow>
          if ofstx = 0 \<and> ofsty = 0 then bulk_copy frame w h s1
          else crop_copy frame ofstx ofsty w h s1)"

subsection \<open>on\_frame\_decoded (lines 188 to 203)\<close>

text \<open>
  The offsets are computed in single precision: the \<open>int\<close> difference is converted to
  \<open>float\<close> (the nearest value with a 24 bit significand, ties to even), multiplied by
  \<open>0.5f\<close>, which is exact, and converted back to \<open>int\<close>, which truncates towards zero.
\<close>

fun bitlen :: "nat \<Rightarrow> nat" where
  "bitlen n = (if n = 0 then 0 else Suc (bitlen (n div 2)))"

declare bitlen.simps [simp del]

definition int_to_float :: "int \<Rightarrow> int" where
  "int_to_float d =
     (let a = nat \<bar>d\<bar>; e = bitlen a - 24; q = a div 2 ^ e; r = a mod 2 ^ e
      in sgn d * int ((if 2 ^ e < 2 * r \<or> (2 * r = 2 ^ e \<and> odd q) then q + 1 else q) * 2 ^ e))"

definition half_to_int :: "int \<Rightarrow> int" where
  "half_to_int f = sgn f * (\<bar>f\<bar> div 2)"

text \<open>The branch under \<open>if (0)\<close> never runs. The result is always 0 and no caller reads it.\<close>

definition on_frame_decoded :: "env \<Rightarrow> AVFrame \<Rightarrow> session \<Rightarrow> fault + session" where
  "on_frame_decoded E frame s =
     (if int_ok (s_video_w s - s_crop_w s) \<and> int_ok (s_video_h s - s_crop_h s) then
        (let ofstx = half_to_int (int_to_float (s_video_w s - s_crop_w s));
             ofsty = half_to_int (int_to_float (s_video_h s - s_crop_h s))
         in convert_to_rgba8888 E frame ofstx ofsty (s_crop_w s) (s_crop_h s) s)
      else Inl IntOverflow)"

subsection \<open>open\_video\_file (lines 33 to 108)\<close>

text \<open>
  What the five fallible library calls answer: the result of avformat\_open\_input with the
  context it stores, the results of avformat\_find\_stream\_info and av\_find\_best\_stream,
  whether avcodec\_alloc\_context3 gave a context, and the result of avcodec\_open2 with
  the state of the decoder context after it. The prints to stdout and stderr are left out.
\<close>

record open_calls =
  avformat_open_input :: "int \<times> AVFormatContext"
  avformat_find_stream_info :: int
  av_find_best_stream :: int
  avcodec_alloc_context3 :: bool
  avcodec_open2 :: "int \<times> AVCodecContext"

definition open_video_file :: "env \<Rightarrow> open_calls \<Rightarrow> session \<Rightarrow> int \<times> session" where
  "open_video_file E L s =
     (let (ret, fmt_ctx) = avformat_open_input L in
      if ret < 0 then (- 1, s)
      else let ret = avformat_find_stream_info L in
      if ret < 0 then (ret, s)
      else let ret = av_find_best_stream L in
      if ret < 0 then (ret, s)
      else let video_stream_index = ret in
      if \<not> avcodec_alloc_context3 L then (AVERROR_ENOMEM E, s)
      else let (ret, dec_ctx) = avcodec_open2 L in
      if ret < 0 then (ret, s)
      else
        (0, s\<lparr>s_fmt_ctx := Some fmt_ctx,
               s_dec_ctx := Some dec_ctx,
               s_video_st := Some (streams fmt_ctx video_stream_index),
               s_video_stream_index := video_stream_index,
               s_video_w := width dec_ctx,
               s_video_h := height dec_ctx,
               s_video_fmt := word_of_int (pix_fmt dec_ctx),
               s_crop_w := width dec_ctx,
               s_crop_h := height dec_ctx\<rparr>))"

subsection \<open>The arithmetic of the deadline (lines 14 and 218 to 224)\<close>

text \<open>
  Lines 223 and 224 compute in \<open>double\<close>. A \<open>double\<close> is the real number it denotes, and
  every operation gives the exact result rounded to the nearest number with a 53 bit
  significand, ties to even (binary64 in its default rounding mode). The exponent range is
  left out: with a 32 bit numerator and denominator and a 64 bit timestamp every
  intermediate magnitude that is not zero lies between \<open>2 powi - 31\<close> and \<open>2 powi 115\<close>,
  far inside it.

  \<open>expo x\<close> is the exponent of a positive \<open>x\<close>, the \<open>e\<close> with
  \<open>2 powi e \<le> x < 2 powi (e + 1)\<close>; \<open>rne\<close> rounds to the nearest integer, ties to even.
\<close>

definition expo :: "real \<Rightarrow> int" where
  "expo x =
     (if 1 \<le> x then int (bitlen (nat \<lfloor>x\<rfloor>)) - 1
      else - int (bitlen (nat (\<lceil>1 / x\<rceil> - 1))))"

definition rne :: "real \<Rightarrow> int" where
  "rne q =
     (if q - of_int \<lfloor>q\<rfloor> < 1 / 2 then \<lfloor>q\<rfloor>
      else if 1 / 2 < q - of_int \<lfloor>q\<rfloor> then \<lfloor>q\<rfloor> + 1
      else if even \<lfloor>q\<rfloor> then \<lfloor>q\<rfloor> else \<lfloor>q\<rfloor> + 1)"

definition to_double :: "real \<Rightarrow> real" where
  "to_double x =
     (if x = 0 then 0
      else sgn x * of_int (rne (\<bar>x\<bar> / 2 powi (expo \<bar>x\<bar> - 52))) * 2 powi (expo \<bar>x\<bar> - 52))"

text \<open>
  The conversion of a \<open>double\<close> to \<open>int64_t\<close> drops the fraction (towards zero) and is
  undefined when the result is not an \<open>int64_t\<close>.
\<close>

definition double_to_int64 :: "real \<Rightarrow> fault + int" where
  "double_to_int64 x =
     (if int64_ok (if 0 \<le> x then \<lfloor>x\<rfloor> else \<lceil>x\<rceil>)
      then Inr (if 0 \<le> x then \<lfloor>x\<rfloor> else \<lceil>x\<rceil>)
      else Inl FloatToInt)"

text \<open>Line 14, \<open>#define PLAY_SPEED (1.0);\<close>\<close>

definition PLAY_SPEED :: real where
  "PLAY_SPEED = 1"

text \<open>
  Lines 223 and 224 for a time base, a speed and the value of \<open>pts_us\<close> after line 221:
  \<open>av_q2d\<close> divides the numerator by the denominator, the two factors 1000 are multiplied
  on one after the other, \<open>pts_us *= ...\<close> converts \<open>pts_us\<close> to \<open>double\<close>, multiplies and
  converts back, and \<open>pts_us /= ...\<close> does the same with the division. A denominator or a
  speed of zero gives an infinity or a NaN, which no conversion to \<open>int64_t\<close> accepts.
\<close>

definition pts_to_us :: "AVRational \<Rightarrow> real \<Rightarrow> int \<Rightarrow> fault + int" where
  "pts_to_us tb speed pts_us =
     (if den tb = 0 \<or> speed = 0 then Inl FloatToInt
      else
        (case double_to_int64
                (to_double (to_double (of_int pts_us)
                   * to_double (to_double (to_double (of_int (num tb) / of_int (den tb)) * 1000)
                                 * 1000))) of
           Inl f \<Rightarrow> Inl f
         | Inr p \<Rightarrow> double_to_int64 (to_double (to_double (of_int p) / speed))))"

text \<open>Lines 218 to 224: a packet without a timestamp counts as timestamp 0.\<close>

definition deadline_us :: "env \<Rightarrow> AVRational \<Rightarrow> real \<Rightarrow> int \<Rightarrow> fault + int" where
  "deadline_us E tb speed t =
     pts_to_us tb speed (if t \<noteq> AV_NOPTS_VALUE E then t else 0)"

text \<open>
  \<open>av_usleep\<close> takes an \<open>unsigned\<close>: the \<open>int64_t\<close> argument of line 228 is converted to 32
  bits on the way in.
\<close>

definition to_unsigned :: "int \<Rightarrow> int" where
  "to_unsigned v = v mod 4294967296"

subsection \<open>The worker thread (lines 205 to 323)\<close>

text \<open>
  The thread talks to the demuxer, the decoder and the clock. Their answers are scripts:
  the successive results of av\_read\_frame (with the packet it stores), of
  avcodec\_send\_packet, of avcodec\_receive\_frame (with the RGBA frame sws\_scale makes of
  the decoded one) and of av\_gettime. A call that finds its script empty stops the model
  with \<open>Exhausted\<close>. The calls the thread makes are recorded in \<open>trace\<close>; \<open>Err n\<close> is the
  message printed at line \<open>n\<close>, and \<open>Usleep d\<close> a call of av\_usleep that receives \<open>d\<close>.
\<close>

datatype event =
    Err nat
  | Msg string
  | ReadFrame int AVPacket
  | SendPacket AVPacket int
  | ReceiveFrame int
  | SwsScale
  | Usleep int
  | PacketUnref AVPacket
  | SeekFrame
  | FlushBuffers

record world =
  sess :: session
  packet :: AVPacket
  sends :: "int list"
  clock :: "int list"
  trace :: "event list"

text \<open>
  How the thread can stop: \<open>return 0\<close>, undefined behaviour, or the end of a script.
  A step either stops, with the world it stopped in, or goes on.
\<close>

datatype stop = Returned | Crashed fault | Exhausted

type_synonym 'a step = "(stop \<times> world) + 'a"

type_synonym reads = "(int \<times> AVPacket) list"
type_synonym recvs = "(int \<times> AVFrame) list"

definition emit :: "event \<Rightarrow> world \<Rightarrow> world" where
  "emit e w = w\<lparr>trace := trace w @ [e]\<rparr>"

definition av_gettime :: "world \<Rightarrow> (int \<times> world) step" where
  "av_gettime w = (case clock w of [] \<Rightarrow> Inl (Exhausted, w) | t # ts \<Rightarrow> Inr (t, w\<lparr>clock := ts\<rparr>))"

definition avcodec_send_packet :: "world \<Rightarrow> (int \<times> world) step" where
  "avcodec_send_packet w =
     (case sends w of
        [] \<Rightarrow> Inl (Exhausted, w)
      | r # rs \<Rightarrow> Inr (r, emit (SendPacket (packet w) r) (w\<lparr>sends := rs\<rparr>)))"

text \<open>
  av\_packet\_unref releases what the packet holds. The variable \<open>packet\<close> is written by
  the next av\_read\_frame before it is read again, so only the call is recorded.
\<close>

definition av_packet_unref :: "world \<Rightarrow> world" where
  "av_packet_unref w = emit (PacketUnref (packet w)) w"

definition init_duration :: "world \<Rightarrow> world step" where
  "init_duration w =
     (case av_gettime w of
        Inl x \<Rightarrow> Inl x
      | Inr (t, w1) \<Rightarrow> Inr (w1\<lparr>sess := (sess w1)\<lparr>s_duration_base := t\<rparr>\<rparr>))"

definition get_duration_us :: "world \<Rightarrow> (int \<times> world) step" where
  "get_duration_us w =
     (case av_gettime w of
        Inl x \<Rightarrow> Inl x
      | Inr (t, w1) \<Rightarrow>
          if int64_ok (t - s_duration_base (sess w1))
          then Inr (t - s_duration_base (sess w1), w1)
          else Inl (Crashed IntOverflow, w1))"

text \<open>Lines 216 to 230.\<close>

definition sleep_to_pts :: "env \<Rightarrow> world \<Rightarrow> world step" where
  "sleep_to_pts E w =
     (case s_video_st (sess w) of
        None \<Rightarrow> Inl (Crashed NullPointer, w)
      | Some st \<Rightarrow>
          (case deadline_us E (time_base st) PLAY_SPEED (dts (packet w)) of
             Inl f \<Rightarrow> Inl (Crashed f, w)
           | Inr pts_us \<Rightarrow>
               (case get_duration_us w of
                  Inl x \<Rightarrow> Inl x
                | Inr (duration, w1) \<Rightarrow>
                    if int64_ok (pts_us - duration) then
                      (let delay_us = pts_us - duration in
                       if 0 < delay_us then Inr (emit (Usleep (to_unsigned delay_us)) w1)
                       else Inr w1)
                    else Inl (Crashed IntOverflow, w1))))"

text \<open>Lines 272 to 293, the loop \<open>while (ret >= 0)\<close>.\<close>

fun drain_loop :: "env \<Rightarrow> int \<Rightarrow> recvs \<Rightarrow> world \<Rightarrow> (recvs \<times> world) step" where
  "drain_loop E ret [] w = (if 0 \<le> ret then Inl (Exhausted, w) else Inr ([], w))"
| "drain_loop E ret ((r, framergb) # rs) w =
     (if 0 \<le> ret then
        (let w1 = emit (ReceiveFrame r) w in
         if r = AVERROR_EAGAIN E then Inr (rs, w1)
         else if r = AVERROR_EOF E then Inr (rs, emit (Msg ''EOF.'') w1)
         else if r < 0 then Inl (Returned, emit (Err 283) w1)
         else
           (case sleep_to_pts E (emit SwsScale w1) of
              Inl x \<Rightarrow> Inl x
            | Inr w2 \<Rightarrow>
                (case on_frame_decoded E framergb (sess w2) of
                   Inl f \<Rightarrow> Inl (Crashed f, w2)
                 | Inr s' \<Rightarrow> drain_loop E r rs (w2\<lparr>sess := s'\<rparr>))))
      else Inr ((r, framergb) # rs, w))"

text \<open>
  Lines 264 to 297, the loop \<open>while (av_read_frame(...) >= 0)\<close>. It is left when a read
  fails (\<open>Done\<close>) or by the \<open>break\<close> of line 269 (\<open>Broke\<close>).
\<close>

datatype exit = Done | Broke

fun read_loop :: "env \<Rightarrow> reads \<Rightarrow> recvs \<Rightarrow> world \<Rightarrow> (exit \<times> reads \<times> recvs \<times> world) step" where
  "read_loop E [] rcv w = Inl (Exhausted, w)"
| "read_loop E ((r, p) # rds) rcv w =
     (let w1 = emit (ReadFrame r p) (w\<lparr>packet := p\<rparr>) in
      if 0 \<le> r then
        if stream_index p = s_video_stream_index (sess w1) then
          (case avcodec_send_packet w1 of
             Inl x \<Rightarrow> Inl x
           | Inr (ret, w2) \<Rightarrow>
               if ret < 0 then Inr (Broke, rds, rcv, emit (Err 268) w2)
               else
                 (case drain_loop E ret rcv w2 of
                    Inl x \<Rightarrow> Inl x
                  | Inr (rcv', w3) \<Rightarrow> read_loop E rds rcv' (av_packet_unref w3)))
        else read_loop E rds rcv (av_packet_unref w1)
      else Inr (Done, rds, rcv, w1))"

text \<open>Lines 305 to 311, the loop \<open>while (avcodec_receive_frame(...) == 0)\<close>.\<close>

fun flush_drain :: "env \<Rightarrow> recvs \<Rightarrow> world \<Rightarrow> (recvs \<times> world) step" where
  "flush_drain E [] w = Inl (Exhausted, w)"
| "flush_drain E ((r, framergb) # rs) w =
     (let w1 = emit (ReceiveFrame r) w in
      if r = 0 then
        (case sleep_to_pts E (emit SwsScale w1) of
           Inl x \<Rightarrow> Inl x
         | Inr w2 \<Rightarrow>
             (case on_frame_decoded E framergb (sess w2) of
                Inl f \<Rightarrow> Inl (Crashed f, w2)
              | Inr s' \<Rightarrow> flush_drain E rs (w2\<lparr>sess := s'\<rparr>)))
      else Inr (rs, w1))"

text \<open>Lines 299 to 315: flush the decoder, drain it, rewind.\<close>

definition flush_and_rewind :: "env \<Rightarrow> reads \<Rightarrow> recvs \<Rightarrow> world \<Rightarrow> (reads \<times> recvs \<times> world) step" where
  "flush_and_rewind E rds rcv w =
     (case avcodec_send_packet w of
        Inl x \<Rightarrow> Inl x
      | Inr (ret, w1) \<Rightarrow>
          (case flush_drain E rcv (if ret < 0 then emit (Err 302) w1 else w1) of
             Inl x \<Rightarrow> Inl x
           | Inr (rcv', w2) \<Rightarrow> Inr (rds, rcv', emit FlushBuffers (emit SeekFrame w2))))"

text \<open>One turn of \<open>while (1)\<close>, lines 259 to 315: one playback pass.\<close>

definition playback_pass :: "env \<Rightarrow> reads \<Rightarrow> recvs \<Rightarrow> world \<Rightarrow> (reads \<times> recvs \<times> world) step" where
  "playback_pass E rds rcv w =
     (case init_duration w of
        Inl x \<Rightarrow> Inl x
      | Inr w1 \<Rightarrow>
          (case read_loop E rds rcv w1 of
             Inl x \<Rightarrow> Inl x
           | Inr (ex, rds', rcv', w2) \<Rightarrow> flush_and_rewind E rds' rcv' w2))"

text \<open>
  \<open>while (1)\<close>: the loop has no exit of its own, so the first argument bounds the number of
  passes the model follows.
\<close>

fun passes :: "nat \<Rightarrow> env \<Rightarrow> reads \<Rightarrow> recvs \<Rightarrow> world \<Rightarrow> stop \<times> world" where
  "passes 0 E rds rcv w = (Exhausted, w)"
| "passes (Suc n) E rds rcv w =
     (case playback_pass E rds rcv w of
        Inl x \<Rightarrow> x
      | Inr (rds', rcv', w') \<Rightarrow> passes n E rds' rcv' w')"

text \<open>
  decode\_thread\_main: whether the two av\_frame\_alloc calls and sws\_getContext gave an
  object is an input; the buffer behind \<open>framergb\<close> only carries what sws\_scale writes,
  which the receive script supplies.
\<close>

record thread_setup =
  frame_alloc :: bool
  framergb_alloc :: bool
  sws_getContext :: bool

definition decode_thread_main ::
  "nat \<Rightarrow> env \<Rightarrow> thread_setup \<Rightarrow> reads \<Rightarrow> recvs \<Rightarrow> world \<Rightarrow> stop \<times> world" where
  "decode_thread_main n E S rds rcv w =
     (if \<not> frame_alloc S \<or> \<not> framergb_alloc S then (Returned, emit (Err 237) w)
      else
        (case s_dec_ctx (sess w) of
           None \<Rightarrow> (Crashed NullPointer, w)
         | Some ctx \<Rightarrow>
             if \<not> sws_getContext S
             then (Returned, emit (Msg ''Cannot initialize the sws context'') w)
             else passes n E rds rcv w))"

subsection \<open>The states of the session\<close>

text \<open>
  The file-level variables are written in three places only: open\_video\_file (lines 79 to
  97), init\_duration (line 207) and convert\_to\_rgba8888 (line 165 and the copies), which
  on\_frame\_decoded alone calls. \<open>reachable E n s\<close>: the program can bring the variables
  to \<open>s\<close>, having converted \<open>n\<close> frames on the way.
\<close>

inductive reachable :: "env \<Rightarrow> nat \<Rightarrow> session \<Rightarrow> bool" for E :: env where
  start: "reachable E 0 session_init"
| opened: "reachable E n s \<Longrightarrow> reachable E n (snd (open_video_file E L s))"
| clock_reset: "reachable E n s \<Longrightarrow> reachable E n (s\<lparr>s_duration_base := t\<rparr>)"
| converted: "reachable E n s \<Longrightarrow> on_frame_decoded E frame s = Inr s' \<Longrightarrow> reachable E (Suc n) s'"

subsection \<open>An example environment\<close>

text \<open>
  The values of Linux and FFmpeg for the error codes and an allocator that always succeeds
  and hands out zeroed blocks.
\<close>

abbreviation (input) example_env :: env where
  "example_env \<equiv>
     \<lparr>malloc = (\<lambda>n. Some (replicate n 0)), AVERROR_EAGAIN = - 11, AVERROR_EOF = - 541478725,
      AVERROR_ENOMEM = - 12, AV_NOPTS_VALUE = - 9223372036854775808\<rparr>"

text \<open>
  A container whose best stream is stream 0, two pixels wide and one high and with a time
  base of one second, opened with success; the session after that call; and a world in that session with given scripts for
  avcodec\_send\_packet and av\_gettime.
\<close>

abbreviation (input) example_open :: open_calls where
  "example_open \<equiv>
     \<lparr>avformat_open_input = (0, \<lparr>streams = (\<lambda>i. \<lparr>time_base = \<lparr>num = 1, den = 1\<rparr>\<rparr>)\<rparr>),
      avformat_find_stream_info = 0, av_find_best_stream = 0, avcodec_alloc_context3 = True,
      avcodec_open2 = (0, \<lparr>width = 2, height = 1, pix_fmt = 0\<rparr>)\<rparr>"

abbreviation (input) example_session :: session where
  "example_session \<equiv> snd (open_video_file example_env example_open session_init)"

abbreviation (input) example_world :: "int list \<Rightarrow> int list \<Rightarrow> world" where
  "example_world ss ts \<equiv>
     \<lparr>sess = example_session, packet = \<lparr>stream_index = 0, dts = 0\<rparr>, sends = ss, clock = ts,
      trace = []\<rparr>"

section \<open>The pixel converter\<close>

subsection \<open>What the two loops compute\<close>

lemma copy_byte_ok:
  "0 \<le> s \<Longrightarrow> s < int (length src) \<Longrightarrow> 0 \<le> d \<Longrightarrow> d < int (length buf) \<Longrightarrow>
   copy_byte src s d buf = Inr (buf[nat d := src ! nat s])"
  by (simp add: copy_byte_def)

lemma pixel_loop_spec:
  "0 \<le> s \<Longrightarrow> 0 \<le> d \<Longrightarrow> s + 4 * (w - x) \<le> int (length src) \<Longrightarrow>
   d + 4 * (w - x) \<le> int (length buf) \<Longrightarrow>
   \<exists>out. pixel_loop src w x s d buf = Inr out \<and> length out = length buf \<and>
     (\<forall>i. i < length buf \<longrightarrow> out ! i =
        (if d \<le> int i \<and> int i < d + 4 * (w - x) then src ! nat (s + (int i - d)) else buf ! i))"
proof (induction src w x s d buf rule: pixel_loop.induct)
  case (1 src w x s d buf)
  show ?case
  proof (cases "x < w")
    case False
    then show ?thesis by (subst pixel_loop.simps) auto
  next
    case True
    define b1 where "b1 = buf[nat d := src ! nat s]"
    define b2 where "b2 = b1[nat (d + 1) := src ! nat (s + 1)]"
    define b3 where "b3 = b2[nat (d + 2) := src ! nat (s + 2)]"
    define b4 where "b4 = b3[nat (d + 3) := src ! nat (s + 3)]"
    have len: "length b1 = length buf" "length b2 = length buf" "length b3 = length buf"
      "length b4 = length buf"
      by (simp_all add: b1_def b2_def b3_def b4_def)
    have c1: "copy_byte src s d buf = Inr b1"
      using True 1(2-5) unfolding b1_def by (intro copy_byte_ok) auto
    have c2: "copy_byte src (s + 1) (d + 1) b1 = Inr b2"
      using True 1(2-5) len unfolding b2_def by (intro copy_byte_ok) auto
    have c3: "copy_byte src (s + 2) (d + 2) b2 = Inr b3"
      using True 1(2-5) len unfolding b3_def by (intro copy_byte_ok) auto
    have c4: "copy_byte src (s + 3) (d + 3) b3 = Inr b4"
      using True 1(2-5) len unfolding b4_def by (intro copy_byte_ok) auto
    have step: "pixel_loop src w x s d buf = pixel_loop src w (x + 1) (s + 4) (d + 4) b4"
      using True c1 c2 c3 c4 by (subst pixel_loop.simps) simp
    have "\<exists>out. pixel_loop src w (x + 1) (s + 4) (d + 4) b4 = Inr out \<and> length out = length b4 \<and>
     (\<forall>i. i < length b4 \<longrightarrow> out ! i =
        (if d + 4 \<le> int i \<and> int i < d + 4 + 4 * (w - (x + 1)) then src ! nat (s + 4 + (int i - (d + 4))) else b4 ! i))"
      using True 1(2-5) len by (intro 1(1)[OF True c1 c2 c3 c4]) auto
    then obtain out where out: "pixel_loop src w (x + 1) (s + 4) (d + 4) b4 = Inr out"
      "length out = length b4"
      "\<And>i. i < length b4 \<Longrightarrow> out ! i =
        (if d + 4 \<le> int i \<and> int i < d + 4 + 4 * (w - (x + 1)) then src ! nat (s + 4 + (int i - (d + 4))) else b4 ! i)"
      by blast
    have b4_nth: "b4 ! i = (if int i = d then src ! nat s else if int i = d + 1 then src ! nat (s + 1)
        else if int i = d + 2 then src ! nat (s + 2) else if int i = d + 3 then src ! nat (s + 3) else buf ! i)"
      if "i < length buf" for i
      using that 1(2-5) True unfolding b4_def b3_def b2_def b1_def
      by (auto simp: nth_list_update nat_eq_iff)
    have "out ! i = (if d \<le> int i \<and> int i < d + 4 * (w - x) then src ! nat (s + (int i - d)) else buf ! i)"
      if "i < length buf" for i
    proof -
      have "out ! i = (if d + 4 \<le> int i \<and> int i < d + 4 + 4 * (w - (x + 1)) then src ! nat (s + 4 + (int i - (d + 4))) else b4 ! i)"
        using out(3) that len by simp
      then show ?thesis using b4_nth[OF that] True
        by (auto simp: algebra_simps)
    qed
    then show ?thesis using step out(1,2) len by simp
  qed
qed


lemma row_loop_spec:
  "0 \<le> w \<Longrightarrow> 0 \<le> ofstx \<Longrightarrow> 0 \<le> ofsty \<Longrightarrow>
   ofstx + w \<le> src_w \<Longrightarrow> ofsty + h \<le> src_h \<Longrightarrow> src_h \<le> 2147483647 \<Longrightarrow>
   4 * src_w \<le> linesize0 frame \<Longrightarrow>
   linesize0 frame * src_h \<le> int (length (data0 frame)) \<Longrightarrow>
   linesize0 frame * src_h \<le> 2147483647 \<Longrightarrow>
   0 \<le> y \<Longrightarrow> w * h * 4 \<le> int (length buf) \<Longrightarrow>
    \<exists>out. row_loop frame ofstx ofsty w h y buf = Inr out \<and> length out = length buf \<and>
      (\<forall>i. i < length buf \<and> (int i < y * w * 4 \<or> h * w * 4 \<le> int i) \<longrightarrow> out ! i = buf ! i) \<and>
      (\<forall>r k. y \<le> r \<and> r < h \<and> 0 \<le> k \<and> k < 4 * w \<longrightarrow>
         out ! nat (r * w * 4 + k) =
         data0 frame ! nat ((r + ofsty) * linesize0 frame + ofstx * 4 + k))"
proof (induction frame ofstx ofsty w h y buf rule: row_loop.induct)
  case (1 frame ofstx ofsty w h y buf)
  let ?ls = "linesize0 frame"
  let ?src = "data0 frame"
  note p = "1.prems"
  show ?case
  proof (cases "y < h")
    case False
    then show ?thesis by (subst row_loop.simps) auto
  next
    case True
    define s where "s = (y + ofsty) * ?ls + ofstx * 4"
    define d where "d = y * w * 4"
    have w4: "w * 4 \<le> ?ls" and o4: "ofstx * 4 + w * 4 \<le> ?ls" and ls0: "0 \<le> ?ls"
      using p(1,2,4,7) by auto
    have h1: "1 \<le> src_h" and yo: "y + ofsty + 1 \<le> src_h" using p(3,5,10) True by auto
    have rows: "(y + ofsty + 1) * ?ls \<le> src_h * ?ls"
      using yo ls0 by (rule mult_right_mono)
    have ls_le: "?ls \<le> ?ls * src_h"
      using mult_left_mono[OF h1 ls0] by simp
    have yw: "(y + 1) * (w * 4) \<le> h * (w * 4)"
      using True p(1) by (intro mult_right_mono) auto
    have yw0: "0 \<le> y * w" using p(1,10) by simp
    have hw: "h * (w * 4) \<le> src_h * ?ls"
      using p(1,3,5,10) True w4 by (intro mult_mono) auto
    have src_end: "s + 4 * w \<le> int (length ?src)"
      using rows o4 p(8) unfolding s_def by (simp add: algebra_simps)
    have dst_end: "d + 4 * w \<le> int (length buf)"
      using yw p(11) unfolding d_def by (simp add: algebra_simps)
    have s0: "0 \<le> s" using p(2,3,10) ls0 unfolding s_def by simp
    have d0: "0 \<le> d" using yw0 unfolding d_def by simp
    have ok: "int_ok (y * w) \<and> int_ok (y * w * 4) \<and> int_ok (y + ofsty)
           \<and> int_ok ((y + ofsty) * ?ls) \<and> int_ok (ofstx * 4)"
    proof -
      have "y * w * 4 \<le> 2147483647"
        using yw hw p(9) p(1) by (simp add: algebra_simps)
      moreover have "y * w \<le> y * w * 4" using yw0 by linarith
      moreover have "(y + ofsty) * ?ls \<le> 2147483647"
        using rows p(9) ls0 by (simp add: algebra_simps)
      moreover have "0 \<le> (y + ofsty) * ?ls" using p(3,10) ls0 by simp
      moreover have "ofstx * 4 \<le> 2147483647" using o4 ls_le p(1,9) by simp
      ultimately show ?thesis using yw0 p(2,3,10) yo p(6) unfolding int_ok_def
        by (intro conjI; linarith)
    qed
    have "\<exists>out. pixel_loop ?src w 0 s d buf = Inr out \<and> length out = length buf \<and>
     (\<forall>i. i < length buf \<longrightarrow> out ! i =
        (if d \<le> int i \<and> int i < d + 4 * w then ?src ! nat (s + (int i - d)) else buf ! i))"
      using pixel_loop_spec[OF s0 d0, of w 0 ?src buf] src_end dst_end by simp
    then obtain b where b: "pixel_loop ?src w 0 s d buf = Inr b" "length b = length buf"
      and b_all: "\<forall>i. i < length buf \<longrightarrow> b ! i =
        (if d \<le> int i \<and> int i < d + 4 * w then ?src ! nat (s + (int i - d)) else buf ! i)"
      by blast
    have b_nth: "b ! i =
        (if d \<le> int i \<and> int i < d + 4 * w then ?src ! nat (s + (int i - d)) else buf ! i)"
      if "i < length buf" for i
      using b_all that by blast
    have step: "row_loop frame ofstx ofsty w h y buf = row_loop frame ofstx ofsty w h (y + 1) b"
      using True ok b(1) unfolding s_def d_def by (subst row_loop.simps) simp
    have y1: "0 \<le> y + 1" using p(10) by simp
    have lb: "w * h * 4 \<le> int (length b)" using p(11) b(2) by simp
    have "\<exists>out. row_loop frame ofstx ofsty w h (y + 1) b = Inr out \<and> length out = length b \<and>
      (\<forall>i. i < length b \<and> (int i < (y + 1) * w * 4 \<or> h * w * 4 \<le> int i) \<longrightarrow> out ! i = b ! i) \<and>
      (\<forall>r k. y + 1 \<le> r \<and> r < h \<and> 0 \<le> k \<and> k < 4 * w \<longrightarrow>
         out ! nat (r * w * 4 + k) =
         data0 frame ! nat ((r + ofsty) * linesize0 frame + ofstx * 4 + k))"
      by (rule "1.IH"[OF True ok b(1)[unfolded s_def d_def] p(1) p(2) p(3) p(4) p(5) p(6) p(7)
            p(8) p(9) y1 lb])
    then obtain out where out: "row_loop frame ofstx ofsty w h (y + 1) b = Inr out"
      "length out = length b"
      and keep_all: "\<forall>i. i < length b \<and> (int i < (y + 1) * w * 4 \<or> h * w * 4 \<le> int i) \<longrightarrow> out ! i = b ! i"
      and later_all: "\<forall>r k. y + 1 \<le> r \<and> r < h \<and> 0 \<le> k \<and> k < 4 * w \<longrightarrow>
         out ! nat (r * w * 4 + k) = ?src ! nat ((r + ofsty) * ?ls + ofstx * 4 + k)"
      by blast
    have keep: "out ! i = b ! i"
      if "i < length buf" "int i < (y + 1) * w * 4 \<or> h * w * 4 \<le> int i" for i
      using keep_all that b(2) by simp
    have later: "out ! nat (r * w * 4 + k) = ?src ! nat ((r + ofsty) * ?ls + ofstx * 4 + k)"
      if "y + 1 \<le> r" "r < h" "0 \<le> k" "k < 4 * w" for r k
      using later_all that by blast
    have untouched: "out ! i = buf ! i"
      if "i < length buf" "int i < y * w * 4 \<or> h * w * 4 \<le> int i" for i
    proof -
      have "y * w * 4 \<le> (y + 1) * w * 4" using p(1) by (simp add: algebra_simps)
      then have "int i < (y + 1) * w * 4 \<or> h * w * 4 \<le> int i"
        using that(2) by linarith
      then have "out ! i = b ! i" using keep that(1) by blast
      moreover have "d + 4 * w \<le> h * w * 4" using yw unfolding d_def by (simp add: algebra_simps)
      then have "\<not> (d \<le> int i \<and> int i < d + 4 * w)"
        using that(2) unfolding d_def by linarith
      ultimately show ?thesis using b_nth[OF that(1)] by simp
    qed
    have row: "out ! nat (r * w * 4 + k) = ?src ! nat ((r + ofsty) * ?ls + ofstx * 4 + k)"
      if "y \<le> r" "r < h" "0 \<le> k" "k < 4 * w" for r k
    proof (cases "r = y")
      case False
      then show ?thesis using later that by simp
    next
      case ry: True
      define i where "i = nat (y * w * 4 + k)"
      have i_int: "int i = d + k" using that(3) d0 unfolding d_def i_def by simp
      have i_len: "i < length buf" using dst_end that(4) i_int by linarith
      have "(y + 1) * w * 4 = d + 4 * w" unfolding d_def by (simp add: algebra_simps)
      then have "int i < (y + 1) * w * 4" using i_int that(4) by linarith
      then have "out ! i = b ! i" using keep i_len by blast
      also have "\<dots> = ?src ! nat (s + (int i - d))"
        using b_nth[OF i_len] i_int that(3,4) by simp
      also have "\<dots> = ?src ! nat ((y + ofsty) * ?ls + ofstx * 4 + k)"
        using i_int unfolding s_def by simp
      finally show ?thesis using ry unfolding i_def by simp
    qed
    have "row_loop frame ofstx ofsty w h y buf = Inr out" using step out(1) by simp
    moreover have "\<forall>i. i < length buf \<and> (int i < y * w * 4 \<or> h * w * 4 \<le> int i) \<longrightarrow> out ! i = buf ! i"
      using untouched by blast
    moreover have "\<forall>r k. y \<le> r \<and> r < h \<and> 0 \<le> k \<and> k < 4 * w \<longrightarrow>
         out ! nat (r * w * 4 + k) =
         data0 frame ! nat ((r + ofsty) * linesize0 frame + ofstx * 4 + k)"
      using row by blast
    moreover have "length out = length buf" using out(2) b(2) by simp
    ultimately show ?thesis by blast
  qed
qed

lemma size_t_of_int_nat: "0 \<le> v \<Longrightarrow> v \<le> 2147483647 \<Longrightarrow> size_t_of_int v = nat v"
  by (simp add: size_t_of_int_def)

lemma alloc_decode_buf_ok:
  assumes "0 \<le> w * h" "w * h * 4 \<le> 2147483647"
    and "s_decode_buf s = Some buf \<or> (s_decode_buf s = None \<and> malloc E (nat (w * h * 4)) = Some buf)"
  shows "alloc_decode_buf E w h s = Inr (s\<lparr>s_decode_buf := Some buf\<rparr>)"
proof -
  have "int_ok (w * h) \<and> int_ok (w * h * 4)"
    using assms(1,2) unfolding int_ok_def by linarith
  moreover have "size_t_of_int (w * h * 4) = nat (w * h * 4)"
    using assms(1,2) by (intro size_t_of_int_nat) linarith+
  ultimately show ?thesis
    using assms(3) by (auto simp: alloc_decode_buf_def)
qed

subsection \<open>The zero-offset path\<close>

text \<open>
  Claim C3. For every source frame and every crop rectangle with both offsets zero (a width
  and a height that are not negative, whose byte count \<open>w * h * 4\<close> is an \<open>int\<close> and is
  held both by the frame's first plane and by the published buffer, be it the one already
  allocated or the one \<open>malloc\<close> hands out on the first call), convert\_to\_rgba8888 succeeds
  and the published buffer then holds, in its first \<open>w * h * 4\<close> bytes, exactly the first
  \<open>w * h * 4\<close> bytes of the plane, copied in one piece; the bytes of the buffer after them
  are as they were.
\<close>

theorem convert_zero_offset_is_bulk_copy:
  assumes "0 \<le> w" "0 \<le> h" "w * h * 4 \<le> 2147483647"
    and "s_decode_buf s = Some buf \<or> (s_decode_buf s = None \<and> malloc E (nat (w * h * 4)) = Some buf)"
    and "nat (w * h * 4) \<le> length buf" "nat (w * h * 4) \<le> length (data0 frame)"
  shows "convert_to_rgba8888 E frame 0 0 w h s =
    Inr (s\<lparr>s_decode_buf :=
      Some (take (nat (w * h * 4)) (data0 frame) @ drop (nat (w * h * 4)) buf)\<rparr>)"
proof -
  have wh: "0 \<le> w * h" using assms(1,2) by simp
  have a: "alloc_decode_buf E w h s = Inr (s\<lparr>s_decode_buf := Some buf\<rparr>)"
    using wh assms(3,4) by (rule alloc_decode_buf_ok)
  have ok: "int_ok (w * h) \<and> int_ok (w * h * 4)"
    using wh assms(3) unfolding int_ok_def by linarith
  have n: "size_t_of_int (w * h * 4) = nat (w * h * 4)"
    using wh assms(3) by (intro size_t_of_int_nat) linarith+
  show ?thesis
    using a ok n assms(5,6)
    by (simp add: convert_to_rgba8888_def bulk_copy_def memcpy_def)
qed

theorem convert_zero_offset_is_bulk_copy_witness:
  "convert_to_rgba8888 example_env \<lparr>data0 = [1, 2, 3, 4, 5, 6, 7, 8, 9, 10], linesize0 = 8\<rparr>
     0 0 2 1 session_init =
   Inr (session_init\<lparr>s_decode_buf := Some [1, 2, 3, 4, 5, 6, 7, 8]\<rparr>)"
  using convert_zero_offset_is_bulk_copy [of 2 1 session_init "replicate 8 0" example_env
      "\<lparr>data0 = [1, 2, 3, 4, 5, 6, 7, 8, 9, 10], linesize0 = 8\<rparr>"]
  by (simp add: session_init_def)

subsection \<open>The cropping path\<close>

text \<open>
  Claim C4. For every source frame of \<open>src_w\<close> by \<open>src_h\<close> pixels whose rows are
  \<open>linesize\<close> bytes apart (at least \<open>4 * src_w\<close>, so padding is allowed), and every crop
  rectangle inside it with an offset that is not (0, 0), convert\_to\_rgba8888 succeeds and,
  for every row \<open>y\<close> of the crop, the \<open>w * 4\<close> bytes of output row \<open>y\<close> are the \<open>w * 4\<close>
  bytes of the plane that start at byte \<open>(y + ofsty) * linesize + ofstx * 4\<close>: source row
  \<open>y + ofsty\<close>, found by the stride, from byte column \<open>ofstx * 4\<close>.
\<close>

theorem convert_offset_copies_rows:
  assumes "0 \<le> ofstx" "0 \<le> ofsty" "ofstx \<noteq> 0 \<or> ofsty \<noteq> 0" "0 \<le> w" "0 \<le> h"
    and "ofstx + w \<le> src_w" "ofsty + h \<le> src_h" "src_h \<le> 2147483647"
    and "4 * src_w \<le> linesize0 frame"
    and "linesize0 frame * src_h \<le> int (length (data0 frame))"
    and "linesize0 frame * src_h \<le> 2147483647"
    and "s_decode_buf s = Some buf \<or> (s_decode_buf s = None \<and> malloc E (nat (w * h * 4)) = Some buf)"
    and "w * h * 4 \<le> int (length buf)"
  shows "\<exists>out. convert_to_rgba8888 E frame ofstx ofsty w h s = Inr (s\<lparr>s_decode_buf := Some out\<rparr>)
      \<and> length out = length buf
      \<and> (\<forall>y. 0 \<le> y \<and> y < h \<longrightarrow>
            take (nat (w * 4)) (drop (nat (y * w * 4)) out) =
            take (nat (w * 4)) (drop (nat ((y + ofsty) * linesize0 frame + ofstx * 4)) (data0 frame)))
      \<and> drop (nat (w * h * 4)) out = drop (nat (w * h * 4)) buf"
proof -
  let ?ls = "linesize0 frame"
  let ?src = "data0 frame"
  have ls0: "0 \<le> ?ls" and w4: "w * 4 \<le> ?ls" and o4: "ofstx * 4 + w * 4 \<le> ?ls"
    using assms(1,4,6,9) by auto
  have wh: "0 \<le> w * h" using assms(4,5) by simp
  have "h * (w * 4) \<le> src_h * ?ls"
    using assms(2,4,5,7) w4 by (intro mult_mono) auto
  then have wh4: "w * h * 4 \<le> 2147483647" using assms(11) by (simp add: algebra_simps)
  have a: "alloc_decode_buf E w h s = Inr (s\<lparr>s_decode_buf := Some buf\<rparr>)"
    using wh wh4 assms(12) by (rule alloc_decode_buf_ok)
  obtain out where out: "row_loop frame ofstx ofsty w h 0 buf = Inr out" "length out = length buf"
    and keep_all: "\<forall>i. i < length buf \<and> (int i < 0 * w * 4 \<or> h * w * 4 \<le> int i) \<longrightarrow> out ! i = buf ! i"
    and rows_all: "\<forall>r k. 0 \<le> r \<and> r < h \<and> 0 \<le> k \<and> k < 4 * w \<longrightarrow>
         out ! nat (r * w * 4 + k) = ?src ! nat ((r + ofsty) * ?ls + ofstx * 4 + k)"
    using row_loop_spec[OF assms(4,1,2,6,7,8,9,10,11) order_refl assms(13)] by blast
  have conv: "convert_to_rgba8888 E frame ofstx ofsty w h s = Inr (s\<lparr>s_decode_buf := Some out\<rparr>)"
    using a assms(3) out(1) by (auto simp: convert_to_rgba8888_def crop_copy_def)
  have tail: "drop (nat (w * h * 4)) out = drop (nat (w * h * 4)) buf"
  proof (rule nth_equalityI)
    show "length (drop (nat (w * h * 4)) out) = length (drop (nat (w * h * 4)) buf)"
      using out(2) by simp
  next
    fix i assume "i < length (drop (nat (w * h * 4)) out)"
    then have i: "nat (w * h * 4) + i < length buf" using out(2) by simp
    have "h * w * 4 \<le> int (nat (w * h * 4) + i)" using wh by (simp add: algebra_simps)
    then have "out ! (nat (w * h * 4) + i) = buf ! (nat (w * h * 4) + i)"
      using keep_all i by blast
    then show "drop (nat (w * h * 4)) out ! i = drop (nat (w * h * 4)) buf ! i"
      using i out(2) by simp
  qed
  have row: "take (nat (w * 4)) (drop (nat (y * w * 4)) out) =
            take (nat (w * 4)) (drop (nat ((y + ofsty) * ?ls + ofstx * 4)) ?src)"
    if y: "0 \<le> y" "y < h" for y
  proof -
    define d where "d = nat (y * w * 4)"
    define s where "s = nat ((y + ofsty) * ?ls + ofstx * 4)"
    define n where "n = nat (w * 4)"
    have yw0: "0 \<le> y * w" using y assms(4) by simp
    have so0: "0 \<le> (y + ofsty) * ?ls + ofstx * 4" using y assms(1,2) ls0 by simp
    have "(y + 1) * (w * 4) \<le> h * (w * 4)"
      using y assms(4) by (intro mult_right_mono) auto
    then have "y * w * 4 + w * 4 \<le> int (length buf)"
      using assms(13) by (simp add: algebra_simps)
    then have dn: "d + n \<le> length out"
      using yw0 assms(4) out(2) unfolding d_def n_def by linarith
    have "(y + ofsty + 1) * ?ls \<le> src_h * ?ls"
      using y assms(7) ls0 by (intro mult_right_mono) auto
    then have "(y + ofsty) * ?ls + ofstx * 4 + w * 4 \<le> int (length ?src)"
      using o4 assms(10) by (simp add: algebra_simps)
    then have sn: "s + n \<le> length ?src"
      using so0 assms(4) unfolding s_def n_def by linarith
    have "take n (drop d out) = take n (drop s ?src)"
    proof (rule nth_equalityI)
      show "length (take n (drop d out)) = length (take n (drop s ?src))"
        using dn sn by simp
    next
      fix k assume "k < length (take n (drop d out))"
      then have k: "k < n" by simp
      have kw: "int k < 4 * w" using k unfolding n_def by linarith
      have "out ! nat (y * w * 4 + int k) = ?src ! nat ((y + ofsty) * ?ls + ofstx * 4 + int k)"
        using rows_all y kw by simp
      moreover have "nat (y * w * 4 + int k) = d + k"
        using yw0 unfolding d_def by (simp add: nat_add_distrib)
      moreover have "nat ((y + ofsty) * ?ls + ofstx * 4 + int k) = s + k"
        using so0 unfolding s_def by (simp add: nat_add_distrib)
      ultimately show "take n (drop d out) ! k = take n (drop s ?src) ! k"
        using k dn sn by simp
    qed
    then show ?thesis unfolding d_def s_def n_def .
  qed
  show ?thesis using conv out(2) row tail by blast
qed

theorem convert_offset_copies_rows_witness:
  "\<exists>out. convert_to_rgba8888 example_env
       \<lparr>data0 = [1, 2, 3, 4, 5, 6, 7, 8, 9, 10, 11, 12, 13, 14, 15, 16,
                 17, 18, 19, 20, 21, 22, 23, 24], linesize0 = 12\<rparr>
       1 1 1 1 session_init = Inr (session_init\<lparr>s_decode_buf := Some out\<rparr>)
     \<and> length out = 4
     \<and> take 4 (drop 0 out) = [17, 18, 19, 20]"
proof -
  let ?f = "\<lparr>data0 = [1, 2, 3, 4, 5, 6, 7, 8, 9, 10, 11, 12, 13, 14, 15, 16,
                 17, 18, 19, 20, 21, 22, 23, 24 :: byte], linesize0 = 12\<rparr>"
  have "\<exists>out. convert_to_rgba8888 example_env ?f 1 1 1 1 session_init
         = Inr (session_init\<lparr>s_decode_buf := Some out\<rparr>)
      \<and> length out = length (replicate 4 (0 :: byte))
      \<and> (\<forall>y. 0 \<le> y \<and> y < 1 \<longrightarrow>
            take (nat (1 * 4)) (drop (nat (y * 1 * 4)) out) =
            take (nat (1 * 4)) (drop (nat ((y + 1) * linesize0 ?f + 1 * 4)) (data0 ?f)))
      \<and> drop (nat (1 * 1 * 4)) out = drop (nat (1 * 1 * 4)) (replicate 4 0)"
    by (rule convert_offset_copies_rows [where src_w = 2 and src_h = 2])
       (simp_all add: session_init_def)
  then obtain out where o: "convert_to_rgba8888 example_env ?f 1 1 1 1 session_init
         = Inr (session_init\<lparr>s_decode_buf := Some out\<rparr>)" "length out = 4"
    and r: "\<forall>y. 0 \<le> y \<and> y < 1 \<longrightarrow>
            take (nat (1 * 4)) (drop (nat (y * 1 * 4)) out) =
            take (nat (1 * 4)) (drop (nat ((y + 1) * linesize0 ?f + 1 * 4)) (data0 ?f))"
    by auto
  have "take 4 (drop 0 out) = [17, 18, 19, 20]"
    using r [rule_format, of 0] by simp
  then show ?thesis using o by blast
qed

section \<open>The session\<close>

subsection \<open>What open\_video\_file and on\_frame\_decoded keep\<close>

lemma open_video_file_buf: "s_decode_buf (snd (open_video_file E L s)) = s_decode_buf s"
  by (simp add: open_video_file_def Let_def split: prod.splits)

lemma open_video_file_crop:
  "s_crop_w s = s_video_w s \<and> s_crop_h s = s_video_h s \<Longrightarrow>
   s_crop_w (snd (open_video_file E L s)) = s_video_w (snd (open_video_file E L s)) \<and>
   s_crop_h (snd (open_video_file E L s)) = s_video_h (snd (open_video_file E L s))"
  by (simp add: open_video_file_def Let_def split: prod.splits)

lemma alloc_decode_buf_frame:
  "alloc_decode_buf E w h s = Inr s1 \<Longrightarrow>
   s_crop_w s1 = s_crop_w s \<and> s_crop_h s1 = s_crop_h s \<and>
   s_video_w s1 = s_video_w s \<and> s_video_h s1 = s_video_h s \<and>
   (s_decode_buf s \<noteq> None \<longrightarrow> s_decode_buf s1 \<noteq> None)"
  by (auto simp: alloc_decode_buf_def split: option.splits if_splits)

lemma bulk_copy_frame:
  "bulk_copy frame w h s1 = Inr s' \<Longrightarrow>
   s_crop_w s' = s_crop_w s1 \<and> s_crop_h s' = s_crop_h s1 \<and>
   s_video_w s' = s_video_w s1 \<and> s_video_h s' = s_video_h s1 \<and> s_decode_buf s' \<noteq> None"
  by (auto simp: bulk_copy_def split: sum.splits if_splits)

lemma bitlen_0: "bitlen 0 = 0"
  by (subst bitlen.simps) simp

lemma int_to_float_0: "half_to_int (int_to_float 0) = 0"
  by (simp add: int_to_float_def half_to_int_def bitlen_0)

lemma on_frame_decoded_full_crop:
  assumes "s_crop_w s = s_video_w s" "s_crop_h s = s_video_h s"
  shows "on_frame_decoded E frame s =
     (case alloc_decode_buf E (s_crop_w s) (s_crop_h s) s of
        Inl f \<Rightarrow> Inl f
      | Inr s1 \<Rightarrow> bulk_copy frame (s_crop_w s) (s_crop_h s) s1)"
  using assms
  by (simp add: on_frame_decoded_def convert_to_rgba8888_def int_to_float_0 int_ok_def
      split: sum.splits)

lemma on_frame_decoded_keeps:
  assumes "s_crop_w s = s_video_w s" "s_crop_h s = s_video_h s"
    and "on_frame_decoded E frame s = Inr s'"
  shows "s_crop_w s' = s_video_w s' \<and> s_crop_h s' = s_video_h s' \<and> s_decode_buf s' \<noteq> None"
proof -
  from assms(3) obtain s1 where a: "alloc_decode_buf E (s_crop_w s) (s_crop_h s) s = Inr s1"
    and b: "bulk_copy frame (s_crop_w s) (s_crop_h s) s1 = Inr s'"
    unfolding on_frame_decoded_full_crop[OF assms(1,2)] by (auto split: sum.splits)
  show ?thesis
    using alloc_decode_buf_frame[OF a] bulk_copy_frame[OF b] assms(1,2) by simp
qed

lemma reachable_crop:
  "reachable E n s \<Longrightarrow> s_crop_w s = s_video_w s \<and> s_crop_h s = s_video_h s"
proof (induction rule: reachable.induct)
  case start
  show ?case by (simp add: session_init_def)
next
  case (opened n s L)
  show ?case using opened.IH by (rule open_video_file_crop)
next
  case (clock_reset n s t)
  then show ?case by simp
next
  case (converted n s frame s')
  then show ?case using on_frame_decoded_keeps by blast
qed

lemma reachable_buf:
  "reachable E n s \<Longrightarrow> (n = 0 \<longrightarrow> s_decode_buf s = None) \<and> (0 < n \<longrightarrow> s_decode_buf s \<noteq> None)"
proof (induction rule: reachable.induct)
  case start
  show ?case by (simp add: session_init_def)
next
  case (opened n s L)
  then show ?case by (simp add: open_video_file_buf)
next
  case (clock_reset n s t)
  then show ?case by simp
next
  case (converted n s frame s')
  then show ?case using on_frame_decoded_keeps reachable_crop by blast
qed

lemma example_session_eq:
  "example_session =
     \<lparr>s_fmt_ctx = Some \<lparr>streams = (\<lambda>i. \<lparr>time_base = \<lparr>num = 1, den = 1\<rparr>\<rparr>)\<rparr>,
      s_dec_ctx = Some \<lparr>width = 2, height = 1, pix_fmt = 0\<rparr>,
      s_video_st = Some \<lparr>time_base = \<lparr>num = 1, den = 1\<rparr>\<rparr>,
      s_video_stream_index = 0, s_video_w = 2, s_video_h = 1, s_crop_w = 2, s_crop_h = 1,
      s_video_fmt = 0, s_duration_base = 0, s_decode_buf = None\<rparr>"
  by (simp add: open_video_file_def session_init_def)

lemma example_frame_decoded:
  "on_frame_decoded example_env \<lparr>data0 = [1, 2, 3, 4, 5, 6, 7, 8], linesize0 = 8\<rparr>
     (example_session\<lparr>s_duration_base := t\<rparr>) =
   Inr (example_session\<lparr>s_duration_base := t, s_decode_buf := Some [1, 2, 3, 4, 5, 6, 7, 8]\<rparr>)"
  by (simp add: example_session_eq on_frame_decoded_def int_ok_def int_to_float_0
      convert_to_rgba8888_def alloc_decode_buf_def bulk_copy_def memcpy_def size_t_of_int_def)

subsection \<open>A failed open\<close>

text \<open>
  Claim C9. If any of the fallible steps of open\_video\_file fails (the container cannot be
  opened, its stream information cannot be read, no video stream is found, no decoder
  context can be allocated, or the decoder cannot be opened), the function returns a value
  that is not 0 and every file-level variable is as it was before the call. The value
  returned for the failed allocation is \<open>AVERROR(ENOMEM)\<close>, which is not 0 since \<open>errno\<close>
  codes are positive.
\<close>

theorem open_video_file_failure_writes_nothing:
  assumes "fst (avformat_open_input L) < 0 \<or> avformat_find_stream_info L < 0
      \<or> av_find_best_stream L < 0 \<or> \<not> avcodec_alloc_context3 L \<or> fst (avcodec_open2 L) < 0"
    and "AVERROR_ENOMEM E \<noteq> 0"
  shows "fst (open_video_file E L s) \<noteq> 0 \<and> snd (open_video_file E L s) = s"
  using assms
  by (auto simp: open_video_file_def Let_def split: prod.splits)

theorem open_video_file_failure_writes_nothing_witness:
  "fst (open_video_file example_env
      \<lparr>avformat_open_input = (0, \<lparr>streams = (\<lambda>i. \<lparr>time_base = \<lparr>num = 1, den = 1000\<rparr>\<rparr>)\<rparr>),
       avformat_find_stream_info = 0, av_find_best_stream = - 1381258232,
       avcodec_alloc_context3 = True,
       avcodec_open2 = (0, \<lparr>width = 640, height = 480, pix_fmt = 0\<rparr>)\<rparr> session_init) = - 1381258232
   \<and> snd (open_video_file example_env
      \<lparr>avformat_open_input = (0, \<lparr>streams = (\<lambda>i. \<lparr>time_base = \<lparr>num = 1, den = 1000\<rparr>\<rparr>)\<rparr>),
       avformat_find_stream_info = 0, av_find_best_stream = - 1381258232,
       avcodec_alloc_context3 = True,
       avcodec_open2 = (0, \<lparr>width = 640, height = 480, pix_fmt = 0\<rparr>)\<rparr> session_init) = session_init"
  using open_video_file_failure_writes_nothing [of
      "\<lparr>avformat_open_input = (0, \<lparr>streams = (\<lambda>i. \<lparr>time_base = \<lparr>num = 1, den = 1000\<rparr>\<rparr>)\<rparr>),
       avformat_find_stream_info = 0, av_find_best_stream = - 1381258232,
       avcodec_alloc_context3 = True,
       avcodec_open2 = (0, \<lparr>width = 640, height = 480, pix_fmt = 0\<rparr>)\<rparr>" example_env session_init]
  by (simp add: open_video_file_def)

subsection \<open>The published buffer\<close>

text \<open>
  Claim C8. In every state the program reaches without having converted a frame,
  get\_video\_buffer hands out the null pointer; in every state it reaches after at least
  one conversion, get\_video\_buffer hands out the published frame buffer, which is not
  null. Both return 0.
\<close>

theorem get_video_buffer_null_until_converted:
  assumes "reachable E n s"
  shows "(n = 0 \<longrightarrow> get_video_buffer s = (0, None))
       \<and> (0 < n \<longrightarrow> (\<exists>buf. get_video_buffer s = (0, Some buf) \<and> s_decode_buf s = Some buf))"
  using reachable_buf[OF assms] by (auto simp: get_video_buffer_def)

theorem get_video_buffer_null_until_converted_witness:
  "get_video_buffer session_init = (0, None)
 \<and> get_video_buffer example_session = (0, None)
 \<and> (\<exists>buf. get_video_buffer
        (example_session\<lparr>s_duration_base := 0, s_decode_buf := Some [1, 2, 3, 4, 5, 6, 7, 8]\<rparr>)
        = (0, Some buf))"
proof -
  have r0: "reachable example_env 0 session_init" by (rule reachable.start)
  have r1: "reachable example_env 0 example_session" using r0 by (rule reachable.opened)
  have r1': "reachable example_env 0 (example_session\<lparr>s_duration_base := 0\<rparr>)"
    using r1 by (rule reachable.clock_reset)
  have r2: "reachable example_env (Suc 0)
      (example_session\<lparr>s_duration_base := 0, s_decode_buf := Some [1, 2, 3, 4, 5, 6, 7, 8]\<rparr>)"
    using r1' example_frame_decoded by (rule reachable.converted)
  show ?thesis
    using get_video_buffer_null_until_converted [OF r0]
      get_video_buffer_null_until_converted [OF r1]
      get_video_buffer_null_until_converted [OF r2]
    by auto
qed

subsection \<open>The crop rectangle is the whole frame\<close>

text \<open>
  Claim C10. In every state the program reaches the crop rectangle equals the source
  dimensions, since open\_video\_file is the only writer of both and sets them equal. So
  for every frame both offsets on\_frame\_decoded computes are zero, and the conversion is
  the allocation of lines 164 to 166 followed by the bulk copy of line 169: the loop over
  rows is never entered.
\<close>

theorem conversion_always_bulk_copy:
  assumes "reachable E n s"
  shows "half_to_int (int_to_float (s_video_w s - s_crop_w s)) = 0
       \<and> half_to_int (int_to_float (s_video_h s - s_crop_h s)) = 0
       \<and> on_frame_decoded E frame s =
           (case alloc_decode_buf E (s_crop_w s) (s_crop_h s) s of
              Inl f \<Rightarrow> Inl f
            | Inr s1 \<Rightarrow> bulk_copy frame (s_crop_w s) (s_crop_h s) s1)"
  using reachable_crop[OF assms] on_frame_decoded_full_crop[of s E frame]
  by (simp add: int_to_float_0)

theorem conversion_always_bulk_copy_witness:
  "on_frame_decoded example_env \<lparr>data0 = [1, 2, 3, 4, 5, 6, 7, 8], linesize0 = 8\<rparr> example_session =
     (case alloc_decode_buf example_env (s_crop_w example_session) (s_crop_h example_session)
             example_session of
        Inl f \<Rightarrow> Inl f
      | Inr s1 \<Rightarrow>
          bulk_copy \<lparr>data0 = [1, 2, 3, 4, 5, 6, 7, 8], linesize0 = 8\<rparr>
            (s_crop_w example_session) (s_crop_h example_session) s1)
 \<and> half_to_int (int_to_float (s_video_w example_session - s_crop_w example_session)) = 0
 \<and> half_to_int (int_to_float (s_video_h example_session - s_crop_h example_session)) = 0"
proof -
  have r0: "reachable example_env 0 session_init" by (rule reachable.start)
  have r1: "reachable example_env 0 example_session" using r0 by (rule reachable.opened)
  show ?thesis
    using conversion_always_bulk_copy [OF r1,
        of "\<lparr>data0 = [1, 2, 3, 4, 5, 6, 7, 8], linesize0 = 8\<rparr>"]
    by blast
qed

section \<open>The arithmetic of the deadline\<close>

subsection \<open>Exponent and rounding\<close>

lemma bitlen_bounds:
  "0 < n \<Longrightarrow> \<exists>b. bitlen n = Suc b \<and> 2 ^ b \<le> n \<and> n < 2 ^ Suc b"
proof (induction n rule: bitlen.induct)
  case (1 n)
  show ?case
  proof (cases "n div 2 = 0")
    case True
    then have n1: "n = 1" using "1.prems" by presburger
    have "bitlen 1 = Suc 0"
      by (subst bitlen.simps, subst bitlen.simps) simp
    then show ?thesis using n1 by simp
  next
    case False
    then have "0 < n div 2" by simp
    then obtain b where b: "bitlen (n div 2) = Suc b" "2 ^ b \<le> n div 2" "n div 2 < 2 ^ Suc b"
      using "1.IH" "1.prems" by auto
    have "bitlen n = Suc (Suc b)"
      using b(1) "1.prems" by (subst bitlen.simps) simp
    moreover have "2 ^ Suc b \<le> n" using b(2) by simp
    moreover have "n < 2 ^ Suc (Suc b)" using b(3) by simp
    ultimately show ?thesis by blast
  qed
qed

lemma pow2_neg: "(2::real) powi (- int k) = 1 / 2 ^ k"
proof -
  have "(2::real) powi (- int k) = inverse (2 powi int k)" by (rule power_int_minus)
  also have "\<dots> = 1 / 2 ^ k" by (simp add: inverse_eq_divide)
  finally show ?thesis .
qed

lemma expo_bounds:
  assumes "0 < x"
  shows "2 powi expo x \<le> x \<and> x < 2 powi (expo x + 1)"
proof (cases "1 \<le> x")
  case True
  define n where "n = nat \<lfloor>x\<rfloor>"
  have n0: "0 < n" using True unfolding n_def by simp
  then obtain b where b: "bitlen n = Suc b" "2 ^ b \<le> n" "n < 2 ^ Suc b"
    using bitlen_bounds by blast
  have e: "expo x = int b" using True b(1) unfolding expo_def n_def by simp
  have nx: "real n \<le> x" "x < real n + 1"
    using True unfolding n_def by (simp_all add: of_nat_nat)
  have "(2::real) ^ b \<le> real n" using b(2) by (metis of_nat_le_iff of_nat_numeral of_nat_power)
  then have lo: "(2::real) ^ b \<le> x" using nx(1) by linarith
  have "real n + 1 \<le> 2 ^ Suc b"
  proof -
    have "n + 1 \<le> 2 ^ Suc b" using b(3) by simp
    then have "real (n + 1) \<le> real (2 ^ Suc b)" by (rule iffD2[OF of_nat_le_iff])
    then show ?thesis by simp
  qed
  then have hi: "x < (2::real) ^ Suc b" using nx(2) by linarith
  have "(2::real) powi (int b + 1) = 2 ^ Suc b" by (simp add: power_int_add_1)
  then show ?thesis using lo hi e by simp
next
  case False
  then have x1: "x < 1" by simp
  define m where "m = nat (\<lceil>1 / x\<rceil> - 1)"
  have inv: "1 < 1 / x" using assms x1 by simp
  then have c2: "2 \<le> \<lceil>1 / x\<rceil>" by linarith
  then have m0: "0 < m" unfolding m_def by linarith
  then obtain b where b: "bitlen m = Suc b" "2 ^ b \<le> m" "m < 2 ^ Suc b"
    using bitlen_bounds by blast
  have "expo x = - int (bitlen m)" unfolding expo_def m_def using False by (simp only: if_False)
  then have e: "expo x = - int (Suc b)" using b(1) by simp
  have "0 \<le> \<lceil>1 / x\<rceil> - 1" using c2 by linarith
  then have mc: "int m = \<lceil>1 / x\<rceil> - 1" unfolding m_def by (rule nat_0_le)
  have lo: "(2::real) ^ b < 1 / x"
  proof -
    have "(2::int) ^ b \<le> int m" using b(2) by (metis of_nat_le_iff of_nat_numeral of_nat_power)
    then have "(2::int) ^ b < \<lceil>1 / x\<rceil>" using mc by linarith
    then have "of_int ((2::int) ^ b) < 1 / x" by (simp only: less_ceiling_iff)
    then show ?thesis by simp
  qed
  have hi: "1 / x \<le> (2::real) ^ Suc b"
  proof -
    have "int m < 2 ^ Suc b" using b(3) by (metis of_nat_less_iff of_nat_numeral of_nat_power)
    then have "\<lceil>1 / x\<rceil> \<le> 2 ^ Suc b" using mc by linarith
    then have "1 / x \<le> of_int ((2::int) ^ Suc b)" by (simp only: ceiling_le_iff)
    then show ?thesis by simp
  qed
  have p: "(0::real) < 2 ^ b" "(0::real) < 2 ^ Suc b" by simp_all
  have "1 / (2::real) ^ Suc b \<le> x"
    using hi assms p by (simp add: field_simps)
  moreover have "x < 1 / (2::real) ^ b"
    using lo assms p by (simp add: field_simps)
  moreover have "expo x = - int (Suc b)" by (rule e)
  moreover have "expo x + 1 = - int b" using e by simp
  ultimately show ?thesis by (simp only: pow2_neg)
qed

lemma pow2_less_imp:
  assumes "(2::real) powi a < 2 powi b"
  shows "a < b"
proof (rule ccontr)
  assume "\<not> a < b"
  then have "b \<le> a" by simp
  then have "(2::real) powi b \<le> 2 powi a" by (intro power_int_increasing) simp_all
  then show False using assms by simp
qed

lemma expo_unique:
  assumes "0 < x" "2 powi e \<le> x" "x < 2 powi (e + 1)"
  shows "expo x = e"
proof -
  have b: "2 powi expo x \<le> x" "x < 2 powi (expo x + 1)" using expo_bounds[OF assms(1)] by auto
  have "(2::real) powi e < 2 powi (expo x + 1)" using assms(2) b(2) by linarith
  then have "e < expo x + 1" by (rule pow2_less_imp)
  moreover have "(2::real) powi expo x < 2 powi (e + 1)" using assms(3) b(1) by linarith
  then have "expo x < e + 1" by (rule pow2_less_imp)
  ultimately show ?thesis by linarith
qed

lemma rne_range: "\<lfloor>q\<rfloor> \<le> rne q \<and> rne q \<le> \<lfloor>q\<rfloor> + 1"
  by (simp add: rne_def)

lemma rne_of_int [simp]: "rne (of_int n) = n"
  by (simp add: rne_def)

lemma rne_mono:
  assumes "q \<le> q'"
  shows "rne q \<le> rne q'"
proof (cases "\<lfloor>q\<rfloor> = \<lfloor>q'\<rfloor>")
  case True
  then show ?thesis using assms unfolding rne_def by auto
next
  case False
  then have "\<lfloor>q\<rfloor> + 1 \<le> \<lfloor>q'\<rfloor>" using assms floor_mono[OF assms] by linarith
  then show ?thesis using rne_range[of q] rne_range[of q'] by linarith
qed

lemma rne_ge: "of_int a \<le> q \<Longrightarrow> a \<le> rne q"
  using rne_mono[of "of_int a" q] by simp

lemma rne_le: "q \<le> of_int b \<Longrightarrow> rne q \<le> b"
  using rne_mono[of q "of_int b"] by simp

lemma to_double_0 [simp]: "to_double 0 = 0"
  by (simp add: to_double_def)

lemma to_double_pos:
  "0 < x \<Longrightarrow>
   to_double x = of_int (rne (x / 2 powi (expo x - 52))) * 2 powi (expo x - 52)"
  by (simp add: to_double_def)

lemma to_double_minus: "to_double (- x) = - to_double x"
  by (simp add: to_double_def sgn_minus)

lemma pow2_shift: "(2::real) powi (a + b) = 2 powi a * 2 powi b"
  by (simp add: power_int_add)

lemma scaled_range:
  assumes "0 < x"
  shows "2 ^ 52 \<le> x / 2 powi (expo x - 52) \<and> x / 2 powi (expo x - 52) \<le> 2 ^ 53"
proof -
  let ?s = "(2::real) powi (expo x - 52)"
  have s0: "0 < ?s" by simp
  have b: "2 powi expo x \<le> x" "x < 2 powi (expo x + 1)" using expo_bounds[OF assms] by auto
  have "(2::real) powi expo x = 2 powi 52 * ?s"
    using pow2_shift[of 52 "expo x - 52"] by simp
  then have lo: "2 ^ 52 * ?s \<le> x" using b(1) by simp
  have "(2::real) powi (expo x + 1) = 2 powi 53 * ?s"
    using pow2_shift[of 53 "expo x - 52"] by (simp add: add.commute)
  then have hi: "x \<le> 2 ^ 53 * ?s" using b(2) by simp
  show ?thesis using lo hi s0 by (simp add: pos_le_divide_eq pos_divide_le_eq)
qed

lemma to_double_pos_bounds:
  assumes "0 < x"
  shows "2 powi expo x \<le> to_double x \<and> to_double x \<le> 2 powi (expo x + 1)"
proof -
  let ?s = "(2::real) powi (expo x - 52)"
  let ?q = "x / ?s"
  have s0: "0 < ?s" by simp
  have r: "2 ^ 52 \<le> ?q" "?q \<le> 2 ^ 53" using scaled_range[OF assms] by auto
  have "(2::int) ^ 52 \<le> rne ?q" using r(1) by (intro rne_ge) simp
  then have "(2::real) ^ 52 \<le> of_int (rne ?q)" by (metis of_int_le_iff of_int_numeral of_int_power)
  then have lo: "2 ^ 52 * ?s \<le> of_int (rne ?q) * ?s" using s0 by (intro mult_right_mono) simp_all
  have "rne ?q \<le> (2::int) ^ 53" using r(2) by (intro rne_le) simp
  then have "of_int (rne ?q) \<le> (2::real) ^ 53" by (metis of_int_le_iff of_int_numeral of_int_power)
  then have hi: "of_int (rne ?q) * ?s \<le> 2 ^ 53 * ?s" using s0 by (intro mult_right_mono) simp_all
  have e1: "(2::real) powi expo x = 2 ^ 52 * ?s"
    using pow2_shift[of 52 "expo x - 52"] by simp
  have e2: "(2::real) powi (expo x + 1) = 2 ^ 53 * ?s"
    using pow2_shift[of 53 "expo x - 52"] by (simp add: add.commute)
  show ?thesis unfolding to_double_pos[OF assms] e1 e2 using lo hi by simp
qed

lemma expo_mono:
  assumes "0 < x" "x \<le> y"
  shows "expo x \<le> expo y"
proof -
  have "0 < y" using assms by simp
  have "(2::real) powi expo x \<le> x" using expo_bounds[OF assms(1)] by simp
  also have "x \<le> y" by fact
  also have "y < 2 powi (expo y + 1)" using expo_bounds[OF \<open>0 < y\<close>] by simp
  finally have "expo x < expo y + 1" by (rule pow2_less_imp)
  then show ?thesis by simp
qed

lemma to_double_mono_pos:
  assumes "0 < x" "x \<le> y"
  shows "to_double x \<le> to_double y"
proof -
  have y0: "0 < y" using assms by simp
  show ?thesis
  proof (cases "expo x = expo y")
    case True
    let ?s = "(2::real) powi (expo y - 52)"
    have s0: "0 < ?s" by simp
    have "x / ?s \<le> y / ?s" using assms(2) s0 by (simp add: divide_right_mono)
    then have "rne (x / ?s) \<le> rne (y / ?s)" by (rule rne_mono)
    then have "(of_int (rne (x / ?s)) :: real) \<le> of_int (rne (y / ?s))" by simp
    then have "of_int (rne (x / ?s)) * ?s \<le> of_int (rne (y / ?s)) * ?s"
      using s0 by (intro mult_right_mono) simp_all
    then show ?thesis unfolding to_double_pos[OF assms(1)] to_double_pos[OF y0] True .
  next
    case False
    then have "expo x + 1 \<le> expo y" using expo_mono[OF assms] by simp
    then have "(2::real) powi (expo x + 1) \<le> 2 powi expo y"
      by (intro power_int_increasing) simp_all
    then show ?thesis
      using to_double_pos_bounds[OF assms(1)] to_double_pos_bounds[OF y0] by linarith
  qed
qed

lemma to_double_nonneg: "0 \<le> x \<Longrightarrow> 0 \<le> to_double x"
proof (cases "x = 0")
  case True
  then show ?thesis by simp
next
  case False
  assume "0 \<le> x"
  then have x0: "0 < x" using False by simp
  have "(0::real) < 2 powi expo x" by simp
  then show ?thesis using to_double_pos_bounds[OF x0] by linarith
qed

lemma to_double_mono:
  assumes "x \<le> y"
  shows "to_double x \<le> to_double y"
proof -
  consider "0 < x" | "x \<le> 0" "0 \<le> y" | "y < 0" by linarith
  then show ?thesis
  proof cases
    case 1
    then show ?thesis using assms by (rule to_double_mono_pos)
  next
    case 2
    have "0 \<le> to_double (- x)" using 2(1) by (intro to_double_nonneg) simp
    then have "to_double x \<le> 0" by (simp add: to_double_minus)
    moreover have "0 \<le> to_double y" using 2(2) by (rule to_double_nonneg)
    ultimately show ?thesis by linarith
  next
    case 3
    have "to_double (- y) \<le> to_double (- x)"
      using 3 assms by (intro to_double_mono_pos) simp_all
    then show ?thesis by (simp add: to_double_minus)
  qed
qed

lemma to_double_int_pos:
  assumes "0 < n" "n < 2 ^ 53"
  shows "to_double (of_int n) = of_int n"
proof -
  let ?x = "of_int n :: real"
  have x0: "0 < ?x" using assms(1) by simp
  have "(2::real) powi expo ?x \<le> ?x" using expo_bounds[OF x0] by simp
  also have "?x < 2 ^ 53" using assms(2) by (metis of_int_less_iff of_int_numeral of_int_power)
  finally have "(2::real) powi expo ?x < 2 powi 53" by simp
  then have "expo ?x < 53" by (rule pow2_less_imp)
  then have k: "expo ?x - 52 = - int (nat (52 - expo ?x))" by simp
  define k where "k = nat (52 - expo ?x)"
  note k = k[folded k_def]
  have s: "(2::real) powi (expo ?x - 52) = 1 / 2 ^ k" unfolding k by (rule pow2_neg)
  have "?x / (1 / 2 ^ k) = of_int (n * 2 ^ k)" by simp
  then have "rne (?x / (1 / 2 ^ k)) = n * 2 ^ k" by (simp only: rne_of_int)
  then show ?thesis unfolding to_double_pos[OF x0] s by simp
qed

lemma to_double_int:
  assumes "\<bar>n\<bar> < 2 ^ 53"
  shows "to_double (of_int n) = of_int n"
proof -
  consider "0 < n" | "n = 0" | "n < 0" by linarith
  then show ?thesis
  proof cases
    case 1
    then show ?thesis using assms by (intro to_double_int_pos) simp_all
  next
    case 2
    then show ?thesis by simp
  next
    case 3
    have "to_double (of_int (- n)) = of_int (- n)"
      using 3 assms by (intro to_double_int_pos) simp_all
    then show ?thesis by (simp add: to_double_minus)
  qed
qed

subsection \<open>The conversion to \<open>int64_t\<close> and the two steps\<close>

lemma trunc_mono:
  fixes x y :: real
  assumes "x \<le> y"
  shows "(if 0 \<le> x then \<lfloor>x\<rfloor> else \<lceil>x\<rceil>) \<le> (if 0 \<le> y then \<lfloor>y\<rfloor> else \<lceil>y\<rceil>)"
proof -
  consider "0 \<le> x" | "x < 0" "0 \<le> y" | "y < 0" by linarith
  then show ?thesis
  proof cases
    case 1
    then show ?thesis using assms floor_mono[OF assms] by simp
  next
    case 2
    have "\<lceil>x\<rceil> \<le> 0" using 2(1) by (simp add: ceiling_le_iff)
    moreover have "0 \<le> \<lfloor>y\<rfloor>" using 2(2) by simp
    ultimately have "\<lceil>x\<rceil> \<le> \<lfloor>y\<rfloor>" by linarith
    then show ?thesis using 2 by simp
  next
    case 3
    then show ?thesis using assms ceiling_mono[OF assms] by simp
  qed
qed

lemma double_to_int64_Inr:
  "double_to_int64 x = Inr d \<longleftrightarrow>
   int64_ok (if 0 \<le> x then \<lfloor>x\<rfloor> else \<lceil>x\<rceil>) \<and> d = (if 0 \<le> x then \<lfloor>x\<rfloor> else \<lceil>x\<rceil>)"
  by (auto simp: double_to_int64_def)

lemma double_to_int64_mono:
  assumes "x \<le> y" "double_to_int64 x = Inr a" "double_to_int64 y = Inr b"
  shows "a \<le> b"
  using trunc_mono[OF assms(1)] assms(2,3) unfolding double_to_int64_Inr by simp

lemma double_to_int64_between:
  assumes "x \<le> y" "y \<le> z" "double_to_int64 x = Inr a" "double_to_int64 z = Inr c"
  shows "\<exists>b. double_to_int64 y = Inr b"
proof -
  let ?T = "\<lambda>v :: real. if 0 \<le> v then \<lfloor>v\<rfloor> else \<lceil>v\<rceil>"
  have "?T x \<le> ?T y" "?T y \<le> ?T z" using trunc_mono assms(1,2) by blast+
  moreover have "int64_ok (?T x)" "int64_ok (?T z)"
    using assms(3,4) unfolding double_to_int64_Inr by simp_all
  ultimately have "int64_ok (?T y)" unfolding int64_ok_def by linarith
  then show ?thesis unfolding double_to_int64_Inr by simp
qed

lemma double_to_int64_of_int:
  "int64_ok m \<Longrightarrow> double_to_int64 (of_int m) = Inr m"
  by (simp add: double_to_int64_def)

text \<open>The two stages of lines 223 and 224 as functions of the value they convert.\<close>

lemma pts_to_us_stages:
  assumes "den tb \<noteq> 0" "speed \<noteq> 0"
  shows "pts_to_us tb speed p =
    (case double_to_int64
            (to_double (to_double (of_int p)
               * to_double (to_double (to_double (of_int (num tb) / of_int (den tb)) * 1000)
                             * 1000))) of
       Inl f \<Rightarrow> Inl f
     | Inr q \<Rightarrow> double_to_int64 (to_double (to_double (of_int q) / speed)))"
  using assms by (simp add: pts_to_us_def)

lemma factor_nonneg:
  assumes "0 \<le> num tb" "0 < den tb"
  shows "0 \<le> to_double (to_double (to_double (of_int (num tb) / of_int (den tb)) * 1000) * 1000)"
proof -
  have "(0::real) \<le> of_int (num tb) / of_int (den tb)" using assms by simp
  then have "0 \<le> to_double (of_int (num tb) / of_int (den tb))" by (rule to_double_nonneg)
  then have "0 \<le> to_double (to_double (of_int (num tb) / of_int (den tb)) * 1000)"
    by (intro to_double_nonneg) simp
  then show ?thesis by (intro to_double_nonneg) simp
qed

lemma stage1_mono:
  assumes "0 \<le> k" "p \<le> p'"
  shows "to_double (to_double (of_int p) * k) \<le> to_double (to_double (of_int p') * k)"
proof -
  have "to_double (of_int p) \<le> to_double (of_int p')" using assms(2) by (intro to_double_mono) simp
  then have "to_double (of_int p) * k \<le> to_double (of_int p') * k"
    using assms(1) by (rule mult_right_mono)
  then show ?thesis by (rule to_double_mono)
qed

lemma stage2_mono:
  assumes "0 < speed" "q \<le> q'"
  shows "to_double (to_double (of_int q) / speed) \<le> to_double (to_double (of_int q') / speed)"
proof -
  have "to_double (of_int q) \<le> to_double (of_int q')" using assms(2) by (intro to_double_mono) simp
  then have "to_double (of_int q) / speed \<le> to_double (of_int q') / speed"
    using assms(1) by (simp add: divide_right_mono)
  then show ?thesis by (rule to_double_mono)
qed

lemma pts_to_us_mono:
  assumes "0 \<le> num tb" "0 < den tb" "0 < speed" "p \<le> p'"
    and "pts_to_us tb speed p = Inr d" "pts_to_us tb speed p' = Inr d'"
  shows "d \<le> d'"
proof -
  let ?k = "to_double (to_double (to_double (of_int (num tb) / of_int (den tb)) * 1000) * 1000)"
  have k: "0 \<le> ?k" using assms(1,2) by (rule factor_nonneg)
  have nz: "den tb \<noteq> 0" "speed \<noteq> 0" using assms(2,3) by simp_all
  obtain q where q: "double_to_int64 (to_double (to_double (of_int p) * ?k)) = Inr q"
      "double_to_int64 (to_double (to_double (of_int q) / speed)) = Inr d"
    using assms(5) unfolding pts_to_us_stages[OF nz] by (auto split: sum.splits)
  obtain q' where q': "double_to_int64 (to_double (to_double (of_int p') * ?k)) = Inr q'"
      "double_to_int64 (to_double (to_double (of_int q') / speed)) = Inr d'"
    using assms(6) unfolding pts_to_us_stages[OF nz] by (auto split: sum.splits)
  have "q \<le> q'" using stage1_mono[OF k assms(4)] q(1) q'(1) by (rule double_to_int64_mono)
  then show ?thesis using stage2_mono[OF assms(3)] q(2) q'(2) double_to_int64_mono by blast
qed

lemma pts_to_us_between:
  assumes "0 \<le> num tb" "0 < den tb" "0 < speed" "p \<le> x" "x \<le> p'"
    and "pts_to_us tb speed p = Inr d" "pts_to_us tb speed p' = Inr d'"
  shows "\<exists>dx. pts_to_us tb speed x = Inr dx"
proof -
  let ?k = "to_double (to_double (to_double (of_int (num tb) / of_int (den tb)) * 1000) * 1000)"
  have k: "0 \<le> ?k" using assms(1,2) by (rule factor_nonneg)
  have nz: "den tb \<noteq> 0" "speed \<noteq> 0" using assms(2,3) by simp_all
  obtain q where q: "double_to_int64 (to_double (to_double (of_int p) * ?k)) = Inr q"
      "double_to_int64 (to_double (to_double (of_int q) / speed)) = Inr d"
    using assms(6) unfolding pts_to_us_stages[OF nz] by (auto split: sum.splits)
  obtain q' where q': "double_to_int64 (to_double (to_double (of_int p') * ?k)) = Inr q'"
      "double_to_int64 (to_double (to_double (of_int q') / speed)) = Inr d'"
    using assms(7) unfolding pts_to_us_stages[OF nz] by (auto split: sum.splits)
  obtain qx where qx: "double_to_int64 (to_double (to_double (of_int x) * ?k)) = Inr qx"
    using double_to_int64_between[OF stage1_mono[OF k assms(4)] stage1_mono[OF k assms(5)]
        q(1) q'(1)] by blast
  have "q \<le> qx" using stage1_mono[OF k assms(4)] q(1) qx by (rule double_to_int64_mono)
  moreover have "qx \<le> q'" using stage1_mono[OF k assms(5)] qx q'(1) by (rule double_to_int64_mono)
  ultimately obtain dx where "double_to_int64 (to_double (to_double (of_int qx) / speed)) = Inr dx"
    using double_to_int64_between[OF stage2_mono[OF assms(3)] stage2_mono[OF assms(3)] q(2) q'(2)]
    by blast
  then show ?thesis unfolding pts_to_us_stages[OF nz] qx by simp
qed


text \<open>
  The model at work: a tie goes to the even neighbour, and a time base of one millisecond
  gives a factor of exactly 1000.
\<close>

lemma to_double_at:
  assumes "0 < x" and "2 powi e \<le> x" and "x < 2 powi (e + 1)"
  shows "to_double x = of_int (rne (x / 2 powi (e - 52))) * 2 powi (e - 52)"
  using to_double_pos[OF assms(1)] expo_unique[OF assms] by simp

lemma to_double_ties_to_even:
  "to_double 9007199254740993 = 9007199254740992"
  "to_double 9007199254740995 = 9007199254740996"
  "to_double 9007199254740994 = 9007199254740994"
proof -
  show "to_double 9007199254740993 = 9007199254740992"
    by (subst to_double_at[where e = 53]) (simp_all add: rne_def)
  show "to_double 9007199254740995 = 9007199254740996"
    by (subst to_double_at[where e = 53]) (simp_all add: rne_def)
  show "to_double 9007199254740994 = 9007199254740994"
    by (subst to_double_at[where e = 53]) (simp_all add: rne_def)
qed

lemma to_double_millisecond:
  "to_double (1 / 1000) = 4611686018427388 / 4611686018427387904"
  by (subst to_double_at[where e = "- 10"]) (simp_all add: rne_def)

lemma to_double_millisecond_1000:
  "to_double (to_double (1 / 1000) * 1000) = 1"
proof -
  have "to_double (144115188075855875 / 144115188075855872) = 1"
    by (subst to_double_at[where e = 0]) (simp_all add: rne_def)
  then show ?thesis by (simp add: to_double_millisecond)
qed

lemma pts_to_us_milliseconds:
  assumes "\<bar>p\<bar> \<le> 9007199254740"
  shows "pts_to_us \<lparr>num = 1, den = 1000\<rparr> 1 p = Inr (p * 1000)"
proof -
  have t2: "to_double 1000 = 1000" using to_double_int[of 1000] by simp
  have t4: "to_double (of_int p) = of_int p" using assms by (intro to_double_int) simp
  have t5: "to_double (of_int (p * 1000)) = of_int (p * 1000)"
    using assms by (intro to_double_int) simp
  have ok: "int64_ok (p * 1000)" using assms unfolding int64_ok_def by linarith
  have c: "double_to_int64 (of_int (p * 1000)) = Inr (p * 1000)"
    using ok by (rule double_to_int64_of_int)
  have m: "(of_int p :: real) * 1000 = of_int (p * 1000)" by simp
  have k: "to_double (to_double (to_double (of_int (num \<lparr>num = 1, den = 1000\<rparr>)
              / of_int (den \<lparr>num = 1, den = 1000\<rparr>)) * 1000) * 1000) = 1000"
    by (simp add: to_double_millisecond_1000 t2)
  show ?thesis
    unfolding pts_to_us_def k
    by (simp add: t4 del: of_int_mult) (simp only: m t5 c sum.case div_by_1)
qed

lemma deadline_us_timestamp:
  "t \<noteq> AV_NOPTS_VALUE E \<Longrightarrow> deadline_us E tb speed t = pts_to_us tb speed t"
  by (simp add: deadline_us_def)


subsection \<open>The deadline grows with the timestamp\<close>

text \<open>
  Claim C5. Fix a time base that is not negative (a numerator of at least 0 over a positive
  denominator) and a positive playback speed. For every non-decreasing sequence of packet
  timestamps (none of them \<open>AV_NOPTS_VALUE\<close>, which stands for a missing timestamp) whose
  deadlines lines 218 to 224 compute without undefined behaviour, the deadlines are
  non-decreasing too. And the deadline of every timestamp between the first and the last
  of such a sequence is computed without undefined behaviour as well. The speed of the
  program is \<open>PLAY_SPEED\<close>, which is 1.
\<close>

theorem deadline_us_monotone:
  assumes "0 \<le> num tb" and "0 < den tb" and "0 < speed"
    and "sorted ts" and "AV_NOPTS_VALUE E \<notin> set ts"
    and "map (deadline_us E tb speed) ts = map Inr ds"
  shows "sorted ds
       \<and> (\<forall>t. ts \<noteq> [] \<and> hd ts \<le> t \<and> t \<le> last ts \<and> t \<noteq> AV_NOPTS_VALUE E \<longrightarrow>
             (\<exists>d. deadline_us E tb speed t = Inr d))"
proof -
  have len: "length ds = length ts"
    using assms(6) by (metis length_map)
  have at: "pts_to_us tb speed (ts ! i) = Inr (ds ! i)" if "i < length ts" for i
  proof -
    have "ts ! i \<in> set ts" using that by simp
    then have "ts ! i \<noteq> AV_NOPTS_VALUE E" using assms(5) by metis
    then have "pts_to_us tb speed (ts ! i) = deadline_us E tb speed (ts ! i)"
      by (simp add: deadline_us_timestamp)
    also have "\<dots> = map (deadline_us E tb speed) ts ! i" using that by simp
    also have "\<dots> = Inr (ds ! i)" unfolding assms(6) using that len by simp
    finally show ?thesis .
  qed
  have "ds ! i \<le> ds ! j" if "i \<le> j" "j < length ds" for i j
  proof -
    have "ts ! i \<le> ts ! j" using assms(4) that len by (simp add: sorted_iff_nth_mono)
    then show ?thesis
      using pts_to_us_mono[OF assms(1,2,3)] at[of i] at[of j] that len by simp
  qed
  then have s: "sorted ds" by (simp add: sorted_iff_nth_mono)
  have b: "\<exists>d. deadline_us E tb speed t = Inr d"
    if "ts \<noteq> []" "hd ts \<le> t" "t \<le> last ts" "t \<noteq> AV_NOPTS_VALUE E" for t
  proof -
    have l: "0 < length ts" using that(1) by simp
    have h: "pts_to_us tb speed (hd ts) = Inr (ds ! 0)"
      using at[of 0] l that(1) by (simp add: hd_conv_nth)
    have e: "pts_to_us tb speed (last ts) = Inr (ds ! (length ts - 1))"
      using at[of "length ts - 1"] l that(1) by (simp add: last_conv_nth)
    show ?thesis
      using pts_to_us_between[OF assms(1,2,3) that(2,3) h e] that(4)
      by (simp add: deadline_us_timestamp)
  qed
  show ?thesis using s b by blast
qed

theorem deadline_us_monotone_witness:
  "map (deadline_us example_env \<lparr>num = 1, den = 1000\<rparr> PLAY_SPEED) [0, 40, 80] =
     map Inr [0, 40000, 80000]
 \<and> sorted [0, 40000, 80000 :: int]
 \<and> (\<exists>d. deadline_us example_env \<lparr>num = 1, den = 1000\<rparr> PLAY_SPEED 41 = Inr d)"
proof -
  have m: "map (deadline_us example_env \<lparr>num = 1, den = 1000\<rparr> PLAY_SPEED) [0, 40, 80] =
     map Inr [0, 40000, 80000]"
    using pts_to_us_milliseconds[of 0] pts_to_us_milliseconds[of 40] pts_to_us_milliseconds[of 80]
    by (simp add: deadline_us_def PLAY_SPEED_def)
  have "sorted [0, 40000, 80000 :: int]
       \<and> (\<forall>t. [0, 40, 80 :: int] \<noteq> [] \<and> hd [0, 40, 80] \<le> t \<and> t \<le> last [0, 40, 80]
              \<and> t \<noteq> AV_NOPTS_VALUE example_env \<longrightarrow>
             (\<exists>d. deadline_us example_env \<lparr>num = 1, den = 1000\<rparr> PLAY_SPEED t = Inr d))"
    by (rule deadline_us_monotone[OF _ _ _ _ _ m]) (simp_all add: PLAY_SPEED_def)
  then have "\<exists>d. deadline_us example_env \<lparr>num = 1, den = 1000\<rparr> PLAY_SPEED 41 = Inr d"
    by simp
  then show ?thesis using m by simp
qed

section \<open>The pacing\<close>

lemma emit_fields [simp]:
  "sess (emit e w) = sess w" "packet (emit e w) = packet w" "sends (emit e w) = sends w"
  "clock (emit e w) = clock w" "trace (emit e w) = trace w @ [e]"
  by (simp_all add: emit_def)





section \<open>The decode loop\<close>

lemma read_loop_selected:
  assumes "0 \<le> r0" and "stream_index p = s_video_stream_index (sess w0)"
    and "sends w0 = sr # ss"
    and "w = emit (SendPacket p sr) ((emit (ReadFrame r0 p) (w0\<lparr>packet := p\<rparr>))\<lparr>sends := ss\<rparr>)"
  shows "read_loop E ((r0, p) # rds) rcv w0 =
     (if sr < 0 then Inr (Broke, rds, rcv, emit (Err 268) w)
      else (case drain_loop E sr rcv w of
              Inl x \<Rightarrow> Inl x
            | Inr (rcv', w3) \<Rightarrow> read_loop E rds rcv' (av_packet_unref w3)))"
  using assms(1,2,3) unfolding assms(4)
  by (simp add: Let_def avcodec_send_packet_def)

lemma playback_pass_stop:
  assumes "init_duration w0 = Inr w1" and "read_loop E rds rcv w1 = Inl x"
  shows "playback_pass E rds rcv w0 = Inl x" and "passes (Suc n) E rds rcv w0 = x"
  using assms by (simp_all add: playback_pass_def)

subsection \<open>The results of avcodec\_receive\_frame\<close>

text \<open>
  Claim C7. In the drain loop of lines 272 to 293, a result \<open>AVERROR(EAGAIN)\<close> and a
  result \<open>AVERROR_EOF\<close> each end the drain with the thread still running (the second
  prints \<open>EOF.\<close>), and any other negative result makes decode\_thread\_main return. The
  first three parts are the three results; the fourth says what the read loop does with
  the drain's outcome (a return is passed on, otherwise the packet is released and the next
  one is read); the fifth that a return inside the read loop ends the pass, the loop of
  passes and the thread function.
\<close>

theorem receive_frame_outcomes:
  "(0 \<le> ret \<and> r = AVERROR_EAGAIN E \<longrightarrow>
      drain_loop E ret ((r, f) # rs) w = Inr (rs, emit (ReceiveFrame r) w))
 \<and> (0 \<le> ret \<and> r \<noteq> AVERROR_EAGAIN E \<and> r = AVERROR_EOF E \<longrightarrow>
      drain_loop E ret ((r, f) # rs) w = Inr (rs, emit (Msg ''EOF.'') (emit (ReceiveFrame r) w)))
 \<and> (0 \<le> ret \<and> r \<noteq> AVERROR_EAGAIN E \<and> r \<noteq> AVERROR_EOF E \<and> r < 0 \<longrightarrow>
      drain_loop E ret ((r, f) # rs) w = Inl (Returned, emit (Err 283) (emit (ReceiveFrame r) w)))
 \<and> (0 \<le> r0 \<and> stream_index p = s_video_stream_index (sess w0) \<and> sends w0 = sr # ss \<and> 0 \<le> sr
      \<and> w = emit (SendPacket p sr) ((emit (ReadFrame r0 p) (w0\<lparr>packet := p\<rparr>))\<lparr>sends := ss\<rparr>) \<longrightarrow>
      read_loop E ((r0, p) # rds) rcv w0 =
        (case drain_loop E sr rcv w of
           Inl x \<Rightarrow> Inl x
         | Inr (rcv', w3) \<Rightarrow> read_loop E rds rcv' (av_packet_unref w3)))
 \<and> (init_duration w00 = Inr w1 \<and> read_loop E rds' rcv' w1 = Inl (Returned, w') \<longrightarrow>
      playback_pass E rds' rcv' w00 = Inl (Returned, w')
      \<and> passes (Suc n) E rds' rcv' w00 = (Returned, w')
      \<and> (frame_alloc S \<and> framergb_alloc S \<and> sws_getContext S \<and> s_dec_ctx (sess w00) \<noteq> None \<longrightarrow>
           decode_thread_main (Suc n) E S rds' rcv' w00 = (Returned, w')))"
proof (intro conjI impI)
  assume "0 \<le> ret \<and> r = AVERROR_EAGAIN E"
  then show "drain_loop E ret ((r, f) # rs) w = Inr (rs, emit (ReceiveFrame r) w)"
    by (simp add: Let_def)
next
  assume "0 \<le> ret \<and> r \<noteq> AVERROR_EAGAIN E \<and> r = AVERROR_EOF E"
  then show "drain_loop E ret ((r, f) # rs) w
      = Inr (rs, emit (Msg ''EOF.'') (emit (ReceiveFrame r) w))"
    by (simp add: Let_def)
next
  assume "0 \<le> ret \<and> r \<noteq> AVERROR_EAGAIN E \<and> r \<noteq> AVERROR_EOF E \<and> r < 0"
  then show "drain_loop E ret ((r, f) # rs) w
      = Inl (Returned, emit (Err 283) (emit (ReceiveFrame r) w))"
    by (simp add: Let_def)
next
  assume a: "0 \<le> r0 \<and> stream_index p = s_video_stream_index (sess w0) \<and> sends w0 = sr # ss
      \<and> 0 \<le> sr
      \<and> w = emit (SendPacket p sr) ((emit (ReadFrame r0 p) (w0\<lparr>packet := p\<rparr>))\<lparr>sends := ss\<rparr>)"
  then have "read_loop E ((r0, p) # rds) rcv w0 =
     (if sr < 0 then Inr (Broke, rds, rcv, emit (Err 268) w)
      else (case drain_loop E sr rcv w of
              Inl x \<Rightarrow> Inl x
            | Inr (rcv', w3) \<Rightarrow> read_loop E rds rcv' (av_packet_unref w3)))"
    by (intro read_loop_selected) simp_all
  then show "read_loop E ((r0, p) # rds) rcv w0 =
        (case drain_loop E sr rcv w of
           Inl x \<Rightarrow> Inl x
         | Inr (rcv', w3) \<Rightarrow> read_loop E rds rcv' (av_packet_unref w3))"
    using a by simp
next
  assume a: "init_duration w00 = Inr w1 \<and> read_loop E rds' rcv' w1 = Inl (Returned, w')"
  show "playback_pass E rds' rcv' w00 = Inl (Returned, w')"
    using a playback_pass_stop(1) by blast
next
  assume a: "init_duration w00 = Inr w1 \<and> read_loop E rds' rcv' w1 = Inl (Returned, w')"
  show "passes (Suc n) E rds' rcv' w00 = (Returned, w')"
    using a playback_pass_stop(2) by blast
next
  assume a: "init_duration w00 = Inr w1 \<and> read_loop E rds' rcv' w1 = Inl (Returned, w')"
    and b: "frame_alloc S \<and> framergb_alloc S \<and> sws_getContext S \<and> s_dec_ctx (sess w00) \<noteq> None"
  have "passes (Suc n) E rds' rcv' w00 = (Returned, w')"
    using a playback_pass_stop(2) by blast
  then show "decode_thread_main (Suc n) E S rds' rcv' w00 = (Returned, w')"
    using b by (auto simp: decode_thread_main_def)
qed

theorem receive_frame_outcomes_witness:
  "drain_loop example_env 0 [(- 11, \<lparr>data0 = [], linesize0 = 0\<rparr>)] (example_world [] []) =
     Inr ([], emit (ReceiveFrame (- 11)) (example_world [] []))
 \<and> drain_loop example_env 0 [(- 541478725, \<lparr>data0 = [], linesize0 = 0\<rparr>)] (example_world [] []) =
     Inr ([], emit (Msg ''EOF.'') (emit (ReceiveFrame (- 541478725)) (example_world [] [])))
 \<and> decode_thread_main (Suc 0) example_env
       \<lparr>frame_alloc = True, framergb_alloc = True, sws_getContext = True\<rparr>
       [(0, \<lparr>stream_index = 0, dts = 0\<rparr>)] [(- 22, \<lparr>data0 = [], linesize0 = 0\<rparr>)]
       (example_world [0] [1000]) =
     (Returned,
      \<lparr>sess = example_session\<lparr>s_duration_base := 1000\<rparr>,
       packet = \<lparr>stream_index = 0, dts = 0\<rparr>, sends = [], clock = [],
       trace = [ReadFrame 0 \<lparr>stream_index = 0, dts = 0\<rparr>,
                SendPacket \<lparr>stream_index = 0, dts = 0\<rparr> 0, ReceiveFrame (- 22), Err 283]\<rparr>)"
proof -
  let ?E = example_env
  let ?f = "\<lparr>data0 = [], linesize0 = 0\<rparr> :: AVFrame"
  let ?p = "\<lparr>stream_index = 0, dts = 0\<rparr> :: AVPacket"
  let ?w0 = "example_world [0] [1000]"
  let ?w1 = "?w0\<lparr>clock := [], sess := example_session\<lparr>s_duration_base := 1000\<rparr>\<rparr>"
  let ?w2 = "emit (SendPacket ?p 0) ((emit (ReadFrame 0 ?p) (?w1\<lparr>packet := ?p\<rparr>))\<lparr>sends := []\<rparr>)"
  let ?w3 = "emit (Err 283) (emit (ReceiveFrame (- 22)) ?w2)"
  have a: "drain_loop ?E 0 [(- 11, ?f)] (example_world [] []) =
     Inr ([], emit (ReceiveFrame (- 11)) (example_world [] []))"
    using receive_frame_outcomes [of 0 "- 11" ?E ?f "[]" "example_world [] []"] by simp
  have b: "drain_loop ?E 0 [(- 541478725, ?f)] (example_world [] []) =
     Inr ([], emit (Msg ''EOF.'') (emit (ReceiveFrame (- 541478725)) (example_world [] [])))"
    using receive_frame_outcomes [of 0 "- 541478725" ?E ?f "[]" "example_world [] []"] by simp
  have c: "drain_loop ?E 0 [(- 22, ?f)] ?w2 = Inl (Returned, ?w3)"
    using receive_frame_outcomes [of 0 "- 22" ?E ?f "[]" ?w2] by simp
  have d: "read_loop ?E [(0, ?p)] [(- 22, ?f)] ?w1 =
      (case drain_loop ?E 0 [(- 22, ?f)] ?w2 of
           Inl x \<Rightarrow> Inl x
         | Inr (rcv', w3) \<Rightarrow> read_loop ?E [] rcv' (av_packet_unref w3))"
    using receive_frame_outcomes [of _ _ ?E _ _ ?w2 0 ?p ?w1 0 "[]" "[]" "[(- 22, ?f)]"]
    by (simp add: example_session_eq)
  have e: "read_loop ?E [(0, ?p)] [(- 22, ?f)] ?w1 = Inl (Returned, ?w3)"
    using c d by simp
  have i: "init_duration ?w0 = Inr ?w1"
    by (simp add: init_duration_def av_gettime_def)
  have "decode_thread_main (Suc 0) ?E
       \<lparr>frame_alloc = True, framergb_alloc = True, sws_getContext = True\<rparr>
       [(0, ?p)] [(- 22, ?f)] ?w0 = (Returned, ?w3)"
    using receive_frame_outcomes [where ?w00.0 = ?w0 and ?w1.0 = ?w1 and E = ?E
        and rds' = "[(0, ?p)]" and rcv' = "[(- 22, ?f)]" and w' = ?w3 and n = 0
        and S = "\<lparr>frame_alloc = True, framergb_alloc = True, sws_getContext = True\<rparr>"] i e
    by (simp add: example_session_eq)
  moreover have "?w3 = \<lparr>sess = example_session\<lparr>s_duration_base := 1000\<rparr>,
       packet = ?p, sends = [], clock = [],
       trace = [ReadFrame 0 ?p, SendPacket ?p 0, ReceiveFrame (- 22), Err 283]\<rparr>"
    by (simp add: emit_def)
  ultimately show ?thesis using a b by simp
qed

subsection \<open>A failed avcodec\_send\_packet\<close>












subsection \<open>The release of a packet\<close>

text \<open>
  Claim C2 says that every packet read is released before the next read or the end of the
  read loop. The \<open>break\<close> of line 269 jumps over av\_packet\_unref (line 296): in the first
  run below the submission of the packet fails and the loop is left with no
  \<open>PacketUnref\<close> in the trace; in the second run the submission succeeds and the packet
  is released before the next read.
\<close>

theorem send_failure_skips_unref:
  "read_loop example_env
     [(0, \<lparr>stream_index = 0, dts = 0\<rparr>), (0, \<lparr>stream_index = 0, dts = 40\<rparr>)] []
     (example_world [- 1094995529] []) =
   Inr (Broke, [(0, \<lparr>stream_index = 0, dts = 40\<rparr>)], [],
        \<lparr>sess = example_session, packet = \<lparr>stream_index = 0, dts = 0\<rparr>, sends = [],
         clock = [],
         trace = [ReadFrame 0 \<lparr>stream_index = 0, dts = 0\<rparr>,
                  SendPacket \<lparr>stream_index = 0, dts = 0\<rparr> (- 1094995529), Err 268]\<rparr>)
   \<and> read_loop example_env
     [(0, \<lparr>stream_index = 0, dts = 0\<rparr>), (- 541478725, \<lparr>stream_index = 0, dts = 0\<rparr>)]
     [(- 11, \<lparr>data0 = [], linesize0 = 0\<rparr>)]
     (example_world [0] []) =
   Inr (Done, [], [],
        \<lparr>sess = example_session, packet = \<lparr>stream_index = 0, dts = 0\<rparr>, sends = [],
         clock = [],
         trace = [ReadFrame 0 \<lparr>stream_index = 0, dts = 0\<rparr>,
                  SendPacket \<lparr>stream_index = 0, dts = 0\<rparr> 0, ReceiveFrame (- 11),
                  PacketUnref \<lparr>stream_index = 0, dts = 0\<rparr>,
                  ReadFrame (- 541478725) \<lparr>stream_index = 0, dts = 0\<rparr>]\<rparr>)"
  by (simp add: example_session_eq avcodec_send_packet_def av_packet_unref_def emit_def Let_def)

section \<open>The thread stays within the reachable states\<close>

text \<open>
  Whatever the scripts, the worker thread changes the file-level variables only by
  init\_duration and on\_frame\_decoded, so it leads from reachable states to reachable
  states.
\<close>

lemma sleep_to_pts_sess:
  "sleep_to_pts E w = Inr w' \<Longrightarrow> sess w' = sess w"
  "sleep_to_pts E w = Inl (st, w') \<Longrightarrow> sess w' = sess w"
  by (auto simp: sleep_to_pts_def get_duration_us_def av_gettime_def Let_def
      split: option.splits sum.splits list.splits if_splits)

lemma drain_loop_reachable:
  "reachable E n (sess w) \<Longrightarrow>
   (drain_loop E ret rcv w = Inr (rcv', w') \<or> drain_loop E ret rcv w = Inl (st, w')) \<Longrightarrow>
   \<exists>m. reachable E m (sess w')"
proof (induction rcv arbitrary: ret w n)
  case Nil
  then show ?case by (auto split: if_splits)
next
  case (Cons a rcv)
  obtain r f where a: "a = (r, f)" by (cases a)
  let ?w1 = "emit SwsScale (emit (ReceiveFrame r) w)"
  show ?case
  proof (cases "0 \<le> ret \<and> r \<noteq> AVERROR_EAGAIN E \<and> r \<noteq> AVERROR_EOF E \<and> \<not> r < 0")
    case False
    then show ?thesis using Cons.prems a by (auto simp: Let_def split: if_splits)
  next
    case True
    show ?thesis
    proof (cases "sleep_to_pts E ?w1")
      case (Inl x)
      obtain st0 w0 where x: "x = (st0, w0)" by (cases x)
      have "sess w0 = sess w" using sleep_to_pts_sess(2) Inl x by fastforce
      moreover have "w' = w0" using Cons.prems(2) True a Inl x by (simp add: Let_def)
      ultimately show ?thesis using Cons.prems(1) by auto
    next
      case (Inr w2)
      have s2: "sess w2 = sess w" using sleep_to_pts_sess(1) Inr by fastforce
      show ?thesis
      proof (cases "on_frame_decoded E f (sess w2)")
        case (Inl fl)
        have "w' = w2" using Cons.prems(2) True a Inr Inl by (simp add: Let_def)
        then show ?thesis using s2 Cons.prems(1) by auto
      next
        case (Inr s')
        have r': "reachable E (Suc n) (sess (w2\<lparr>sess := s'\<rparr>))"
          using Cons.prems(1) s2 Inr reachable.converted by fastforce
        have "drain_loop E ret (a # rcv) w = drain_loop E r rcv (w2\<lparr>sess := s'\<rparr>)"
          using True a \<open>sleep_to_pts E ?w1 = Inr w2\<close> Inr by (simp add: Let_def)
        then show ?thesis using Cons.IH[OF r'] Cons.prems(2) by simp
      qed
    qed
  qed
qed

lemma flush_drain_reachable:
  "reachable E n (sess w) \<Longrightarrow>
   (flush_drain E rcv w = Inr (rcv', w') \<or> flush_drain E rcv w = Inl (st, w')) \<Longrightarrow>
   \<exists>m. reachable E m (sess w')"
proof (induction rcv arbitrary: w n)
  case Nil
  then show ?case by auto
next
  case (Cons a rcv)
  obtain r f where a: "a = (r, f)" by (cases a)
  let ?w1 = "emit SwsScale (emit (ReceiveFrame r) w)"
  show ?case
  proof (cases "r = 0")
    case False
    then show ?thesis using Cons.prems a by (auto simp: Let_def)
  next
    case True
    show ?thesis
    proof (cases "sleep_to_pts E ?w1")
      case (Inl x)
      obtain st0 w0 where x: "x = (st0, w0)" by (cases x)
      have "sess w0 = sess w" using sleep_to_pts_sess(2) Inl x by fastforce
      moreover have "w' = w0" using Cons.prems(2) True a Inl x by (simp add: Let_def)
      ultimately show ?thesis using Cons.prems(1) by auto
    next
      case (Inr w2)
      have s2: "sess w2 = sess w" using sleep_to_pts_sess(1) Inr by fastforce
      show ?thesis
      proof (cases "on_frame_decoded E f (sess w2)")
        case (Inl fl)
        have "w' = w2" using Cons.prems(2) True a Inr Inl by (simp add: Let_def)
        then show ?thesis using s2 Cons.prems(1) by auto
      next
        case (Inr s')
        have r': "reachable E (Suc n) (sess (w2\<lparr>sess := s'\<rparr>))"
          using Cons.prems(1) s2 Inr reachable.converted by fastforce
        have "flush_drain E (a # rcv) w = flush_drain E rcv (w2\<lparr>sess := s'\<rparr>)"
          using True a \<open>sleep_to_pts E ?w1 = Inr w2\<close> Inr by (simp add: Let_def)
        then show ?thesis using Cons.IH[OF r'] Cons.prems(2) by simp
      qed
    qed
  qed
qed

lemma avcodec_send_packet_sess:
  "avcodec_send_packet w = Inr (r, w') \<Longrightarrow> sess w' = sess w"
  "avcodec_send_packet w = Inl (st, w') \<Longrightarrow> sess w' = sess w"
  by (auto simp: avcodec_send_packet_def split: list.splits)

lemma read_loop_reachable:
  "reachable E n (sess w) \<Longrightarrow>
   (read_loop E rds rcv w = Inr (ex, rds', rcv', w') \<or> read_loop E rds rcv w = Inl (st, w')) \<Longrightarrow>
   \<exists>m. reachable E m (sess w')"
proof (induction rds arbitrary: rcv w n)
  case Nil
  then show ?case by auto
next
  case (Cons a rds)
  obtain r p where a: "a = (r, p)" by (cases a)
  let ?w1 = "emit (ReadFrame r p) (w\<lparr>packet := p\<rparr>)"
  have r1: "reachable E n (sess ?w1)" using Cons.prems(1) by simp
  show ?case
  proof (cases "0 \<le> r")
    case False
    then show ?thesis using Cons.prems a by (auto simp: Let_def)
  next
    case True
    show ?thesis
    proof (cases "stream_index p = s_video_stream_index (sess ?w1)")
      case False
      have "read_loop E (a # rds) rcv w = read_loop E rds rcv (av_packet_unref ?w1)"
        using True False a by (simp add: Let_def)
      moreover have "reachable E n (sess (av_packet_unref ?w1))"
        using Cons.prems(1) by (simp add: av_packet_unref_def)
      ultimately show ?thesis using Cons.IH Cons.prems(2) by metis
    next
      case sel: True
      show ?thesis
      proof (cases "avcodec_send_packet ?w1")
        case (Inl x)
        obtain st0 w0 where x: "x = (st0, w0)" by (cases x)
        have "sess w0 = sess ?w1" using avcodec_send_packet_sess(2) Inl x by fastforce
        moreover have "w' = w0" using Cons.prems(2) True sel a Inl x by (simp add: Let_def)
        ultimately show ?thesis using r1 by auto
      next
        case (Inr y)
        obtain ret w2 where y: "y = (ret, w2)" by (cases y)
        have s2: "sess w2 = sess ?w1" using avcodec_send_packet_sess(1) Inr y by fastforce
        then have r2: "reachable E n (sess w2)" using r1 by simp
        show ?thesis
        proof (cases "ret < 0")
          case True
          have "w' = emit (Err 268) w2"
            using Cons.prems(2) \<open>0 \<le> r\<close> sel a Inr y True by (simp add: Let_def)
          then show ?thesis using r2 by auto
        next
          case False
          show ?thesis
          proof (cases "drain_loop E ret rcv w2")
            case (Inl x)
            obtain st0 w0 where x: "x = (st0, w0)" by (cases x)
            have "\<exists>m. reachable E m (sess w0)"
              using drain_loop_reachable[OF r2] Inl x by blast
            moreover have "w' = w0"
              using Cons.prems(2) \<open>0 \<le> r\<close> sel a \<open>avcodec_send_packet ?w1 = Inr y\<close> y False Inl x
              by (simp add: Let_def)
            ultimately show ?thesis by simp
          next
            case (Inr z)
            obtain rcv2 w3 where z: "z = (rcv2, w3)" by (cases z)
            obtain m where m: "reachable E m (sess w3)"
              using drain_loop_reachable[OF r2] Inr z by blast
            have "read_loop E (a # rds) rcv w = read_loop E rds rcv2 (av_packet_unref w3)"
              using \<open>0 \<le> r\<close> sel a \<open>avcodec_send_packet ?w1 = Inr y\<close> y False Inr z
              by (simp add: Let_def)
            moreover have "reachable E m (sess (av_packet_unref w3))"
              using m by (simp add: av_packet_unref_def)
            ultimately show ?thesis using Cons.IH Cons.prems(2) by metis
          qed
        qed
      qed
    qed
  qed
qed

lemma flush_and_rewind_reachable:
  assumes "reachable E n (sess w)"
    and "flush_and_rewind E rds rcv w = Inr (rds', rcv', w')
       \<or> flush_and_rewind E rds rcv w = Inl (st, w')"
  shows "\<exists>m. reachable E m (sess w')"
proof (cases "avcodec_send_packet w")
  case (Inl x)
  obtain st0 w0 where x: "x = (st0, w0)" by (cases x)
  have "sess w0 = sess w" using avcodec_send_packet_sess(2) Inl x by fastforce
  moreover have "w' = w0" using assms(2) Inl x by (simp add: flush_and_rewind_def)
  ultimately show ?thesis using assms(1) by auto
next
  case (Inr y)
  obtain ret w1 where y: "y = (ret, w1)" by (cases y)
  let ?w2 = "if ret < 0 then emit (Err 302) w1 else w1"
  have "sess w1 = sess w" using avcodec_send_packet_sess(1) Inr y by fastforce
  then have r2: "reachable E n (sess ?w2)" using assms(1) by simp
  show ?thesis
  proof (cases "flush_drain E rcv ?w2")
    case (Inl x)
    obtain st0 w0 where x: "x = (st0, w0)" by (cases x)
    have "\<exists>m. reachable E m (sess w0)" using flush_drain_reachable[OF r2] Inl x by blast
    moreover have "w' = w0"
      using assms(2) \<open>avcodec_send_packet w = Inr y\<close> y Inl x by (simp add: flush_and_rewind_def)
    ultimately show ?thesis by simp
  next
    case (Inr z)
    obtain rcv2 w3 where z: "z = (rcv2, w3)" by (cases z)
    have "\<exists>m. reachable E m (sess w3)" using flush_drain_reachable[OF r2] Inr z by blast
    moreover have "w' = emit FlushBuffers (emit SeekFrame w3)"
      using assms(2) \<open>avcodec_send_packet w = Inr y\<close> y Inr z by (simp add: flush_and_rewind_def)
    ultimately show ?thesis by simp
  qed
qed

lemma playback_pass_reachable:
  assumes "reachable E n (sess w)"
    and "playback_pass E rds rcv w = Inr (rds', rcv', w')
       \<or> playback_pass E rds rcv w = Inl (st, w')"
  shows "\<exists>m. reachable E m (sess w')"
proof (cases "clock w")
  case Nil
  then have "playback_pass E rds rcv w = Inl (Exhausted, w)"
    by (simp add: playback_pass_def init_duration_def av_gettime_def)
  then show ?thesis using assms by auto
next
  case (Cons t ts)
  let ?w1 = "w\<lparr>clock := ts, sess := (sess w)\<lparr>s_duration_base := t\<rparr>\<rparr>"
  have i: "init_duration w = Inr ?w1"
    using Cons by (simp add: init_duration_def av_gettime_def)
  have r1: "reachable E n (sess ?w1)" using assms(1) reachable.clock_reset by simp
  show ?thesis
  proof (cases "read_loop E rds rcv ?w1")
    case (Inl x)
    obtain st0 w0 where x: "x = (st0, w0)" by (cases x)
    have "\<exists>m. reachable E m (sess w0)" using read_loop_reachable[OF r1] Inl x by blast
    moreover have "w' = w0" using assms(2) i Inl x by (simp add: playback_pass_def)
    ultimately show ?thesis by simp
  next
    case (Inr z)
    obtain ex rds2 rcv2 w2 where z: "z = (ex, rds2, rcv2, w2)" by (cases z)
    obtain m where m: "reachable E m (sess w2)"
      using read_loop_reachable[OF r1] Inr z by blast
    have "playback_pass E rds rcv w = flush_and_rewind E rds2 rcv2 w2"
      using i Inr z by (simp add: playback_pass_def)
    then show ?thesis using flush_and_rewind_reachable[OF m] assms(2) by metis
  qed
qed

lemma passes_reachable:
  "reachable E n (sess w) \<Longrightarrow> passes k E rds rcv w = (st, w') \<Longrightarrow>
   \<exists>m. reachable E m (sess w')"
proof (induction k arbitrary: n rds rcv w)
  case 0
  then show ?case by auto
next
  case (Suc k)
  show ?case
  proof (cases "playback_pass E rds rcv w")
    case (Inl x)
    then have "x = (st, w')" using Suc.prems(2) by simp
    then show ?thesis using playback_pass_reachable[OF Suc.prems(1)] Inl by blast
  next
    case (Inr z)
    obtain rds2 rcv2 w2 where z: "z = (rds2, rcv2, w2)" by (cases z)
    obtain m where m: "reachable E m (sess w2)"
      using playback_pass_reachable[OF Suc.prems(1)] Inr z by blast
    have "passes (Suc k) E rds rcv w = passes k E rds2 rcv2 w2" using Inr z by simp
    then show ?thesis using Suc.IH[OF m] Suc.prems(2) by simp
  qed
qed

lemma decode_thread_main_reachable:
  "reachable E n (sess w) \<Longrightarrow> decode_thread_main k E S rds rcv w = (st, w') \<Longrightarrow>
   \<exists>m. reachable E m (sess w')"
  using passes_reachable
  by (fastforce simp: decode_thread_main_def split: if_splits option.splits)

end
